theory Spec2Isabelle
  imports Complex_Main "HOL-Library.Word"
begin

section \<open>Python values shared by the pipeline\<close>

text \<open>
  The exceptions the modelled code can raise.  All of them derive from Python's
  \<^verbatim>\<open>Exception\<close>, so an \<^verbatim>\<open>except Exception\<close> clause catches each of them.
  \<^verbatim>\<open>CalledProcessError\<close> is what \<^verbatim>\<open>subprocess.run(cmd, check=True)\<close> raises when the
  external tool exits with a non-zero status.
\<close>

datatype py_exception = IndexError | ValueError | CalledProcessError | OtherError string

subsection \<open>Decimal formatting: \<^verbatim>\<open>f"{n:06d}"\<close>\<close>

definition digit_char :: "nat \<Rightarrow> char" where
  "digit_char d = ''0123456789'' ! d"

fun str_nat :: "nat \<Rightarrow> string" where
  "str_nat n = (if n < 10 then [digit_char n] else str_nat (n div 10) @ [digit_char (n mod 10)])"

declare str_nat.simps [simp del]

definition zfill :: "nat \<Rightarrow> string \<Rightarrow> string" where
  "zfill w s = replicate (w - length s) (CHR ''0'') @ s"

text \<open>\<^verbatim>\<open>f"frame_{i:06d}.png"\<close>: at least six digits, more when the index needs them.\<close>

definition frame_name :: "nat \<Rightarrow> string" where
  "frame_name i = ''frame_'' @ zfill 6 (str_nat i) @ ''.png''"

text \<open>Reading a digit string back, used to show that formatting loses nothing.\<close>

definition digit_val :: "char \<Rightarrow> nat" where
  "digit_val c = of_char c - 48"

definition is_digit :: "char \<Rightarrow> bool" where
  "is_digit c = (c \<in> set ''0123456789'')"

definition int_of_digits :: "string \<Rightarrow> nat" where
  "int_of_digits s = foldl (\<lambda>acc c. 10 * acc + digit_val c) 0 s"

text \<open>\<^verbatim>\<open>os.path.join(d, f)\<close> on POSIX for a relative \<open>f\<close>.\<close>

definition path_join :: "string \<Rightarrow> string \<Rightarrow> string" where
  "path_join d f = (if d = [] then f else if last d = CHR ''/'' then d @ f else d @ ''/'' @ f)"

text \<open>
  A directory is the list of its entries (name, content) in creation order; writing to an
  existing name replaces the content, as \<^verbatim>\<open>cv2.imwrite\<close> and \<^verbatim>\<open>shutil.copy\<close> do.
\<close>

definition dir_write :: "string \<Rightarrow> 'a \<Rightarrow> (string \<times> 'a) list \<Rightarrow> (string \<times> 'a) list" where
  "dir_write name v dir =
     (if name \<in> set (map fst dir)
      then map (\<lambda>(n, x). if n = name then (n, v) else (n, x)) dir
      else dir @ [(name, v)])"

section \<open>Frame extractor: \<^verbatim>\<open>src/video_reader.py\<close>\<close>

text \<open>
  \<^verbatim>\<open>cv2.VideoCapture\<close>: a capture that failed to open answers every property query
  with \<open>0.0\<close> and every \<^verbatim>\<open>read()\<close> with \<^verbatim>\<open>(False, None)\<close>; it raises nothing.
  The decodable frames of an opened capture are the list \<open>cap_frames\<close>.
\<close>

record 'f capture =
  cap_opened :: bool
  cap_fps :: rat
  cap_frame_count :: rat
  cap_width :: rat
  cap_height :: rat
  cap_frames :: "'f list"

definition cap_get :: "'f capture \<Rightarrow> ('f capture \<Rightarrow> rat) \<Rightarrow> rat" where
  "cap_get cap prop = (if cap_opened cap then prop cap else 0)"

definition cap_readable :: "'f capture \<Rightarrow> 'f list" where
  "cap_readable cap = (if cap_opened cap then cap_frames cap else [])"

text \<open>Python's \<^verbatim>\<open>int(x)\<close> on a float truncates toward zero.\<close>

definition py_int :: "rat \<Rightarrow> int" where
  "py_int q = (if 0 \<le> q then \<lfloor>q\<rfloor> else \<lceil>q\<rceil>)"

text \<open>A batch descriptor \<^verbatim>\<open>(batch_idx, start_frame, end_frame, frames_paths_list)\<close>.\<close>

type_synonym batch = "nat \<times> int \<times> int \<times> string list"

record 'f reader_state =
  batches :: "batch list"
  frame_idx :: nat
  batch_idx :: nat
  current_batch :: "string list"
  frame_store :: "(string \<times> 'f) list"

definition reader_init :: "(string \<times> 'f) list \<Rightarrow> 'f reader_state" where
  "reader_init store = \<lparr>batches = [], frame_idx = 0, batch_idx = 0, current_batch = [],
     frame_store = store\<rparr>"

definition flush_batch :: "'f reader_state \<Rightarrow> batch" where
  "flush_batch st = (batch_idx st, int (frame_idx st) - int (length (current_batch st)),
     int (frame_idx st) - 1, current_batch st)"

text \<open>One iteration of the \<^verbatim>\<open>while True\<close> loop for a frame that was read.\<close>

definition reader_step :: "string \<Rightarrow> int \<Rightarrow> 'f \<Rightarrow> 'f reader_state \<Rightarrow> 'f reader_state" where
  "reader_step frames_out_dir batch_size frame st =
     (let outpath = path_join frames_out_dir (frame_name (frame_idx st));
          st1 = st\<lparr>frame_store := dir_write outpath frame (frame_store st),
                   current_batch := current_batch st @ [outpath],
                   frame_idx := frame_idx st + 1\<rparr>
      in if int (length (current_batch st1)) \<ge> batch_size
         then st1\<lparr>batches := batches st1 @ [flush_batch st1],
                  batch_idx := batch_idx st1 + 1,
                  current_batch := []\<rparr>
         else st1)"

fun reader_loop :: "string \<Rightarrow> int \<Rightarrow> 'f list \<Rightarrow> 'f reader_state \<Rightarrow> 'f reader_state" where
  "reader_loop d b [] st = st"
| "reader_loop d b (frame # rest) st = reader_loop d b rest (reader_step d b frame st)"

text \<open>
  \<^verbatim>\<open>read_and_write_batches\<close> has no \<^verbatim>\<open>raise\<close>; the result type still has an error
  side so that "fails with an error" can be stated of it.  It returns
  \<^verbatim>\<open>(batches, fps, total, w, h)\<close>; the model returns the frame store as well.
\<close>

definition read_and_write_batches ::
  "'f capture \<Rightarrow> (string \<times> 'f) list \<Rightarrow> string \<Rightarrow> int
     \<Rightarrow> py_exception + (batch list \<times> rat \<times> int \<times> int \<times> int) \<times> (string \<times> 'f) list" where
  "read_and_write_batches cap store frames_out_dir batch_size =
     (let fps = (if cap_get cap cap_fps = 0 then 30 else cap_get cap cap_fps);
          total = py_int (cap_get cap cap_frame_count);
          w = py_int (cap_get cap cap_width);
          h = py_int (cap_get cap cap_height);
          st = reader_loop frames_out_dir batch_size (cap_readable cap) (reader_init store);
          bs = (if current_batch st \<noteq> [] then batches st @ [flush_batch st] else batches st)
      in Inr ((bs, fps, total, w, h), frame_store st))"

definition batches_of ::
  "py_exception + (batch list \<times> rat \<times> int \<times> int \<times> int) \<times> (string \<times> 'f) list \<Rightarrow> batch list" where
  "batches_of r = (case r of Inl _ \<Rightarrow> [] | Inr ((bs, _), _) \<Rightarrow> bs)"

text \<open>The path the extractor gives frame \<open>i\<close>.\<close>

definition outpath :: "string \<Rightarrow> nat \<Rightarrow> string" where
  "outpath d i = path_join d (frame_name i)"

text \<open>
  Auxiliary notions for the proofs about the extractor: a completed batch of full size,
  the \<open>k\<close>-th batch of a source with \<open>N\<close> frames, and the loop invariant.
\<close>

definition full_batch :: "string \<Rightarrow> nat \<Rightarrow> nat \<Rightarrow> batch" where
  "full_batch d B k =
     (k, int (k * B), int ((k + 1) * B) - 1, map (outpath d) [k * B ..< (k + 1) * B])"

definition nth_batch :: "string \<Rightarrow> nat \<Rightarrow> nat \<Rightarrow> nat \<Rightarrow> batch" where
  "nth_batch d B N k = (k, int (k * B), int (min ((k + 1) * B) N) - 1,
     map (outpath d) [k * B ..< min ((k + 1) * B) N])"

definition reader_inv :: "string \<Rightarrow> nat \<Rightarrow> 'f reader_state \<Rightarrow> bool" where
  "reader_inv d B st \<longleftrightarrow>
     length (current_batch st) < B \<and>
     frame_idx st = batch_idx st * B + length (current_batch st) \<and>
     current_batch st = map (outpath d) [batch_idx st * B ..< frame_idx st] \<and>
     batches st = map (full_batch d B) [0 ..< batch_idx st]"

definition batch_paths :: "batch \<Rightarrow> string list" where
  "batch_paths b = snd (snd (snd b))"

text \<open>Two sample captures: 90 and 95 decodable frames, and one that could not be opened.\<close>

definition sample_capture :: "nat \<Rightarrow> nat capture" where
  "sample_capture n = \<lparr>cap_opened = True, cap_fps = 30, cap_frame_count = of_nat n,
     cap_width = 4, cap_height = 4, cap_frames = replicate n 0\<rparr>"

definition unopened_capture :: "nat capture" where
  "unopened_capture = \<lparr>cap_opened = False, cap_fps = 0, cap_frame_count = 0,
     cap_width = 0, cap_height = 0, cap_frames = []\<rparr>"

section \<open>Stream publisher: \<^verbatim>\<open>src/streaming.py\<close>\<close>

text \<open>
  \<^verbatim>\<open>re.compile(r"segment_(\d{5})\.ts$").match(name)\<close>: anchored at the start of the name;
  \<^verbatim>\<open>$\<close> matches at the end of the name or just before a final newline.  The result is
  \<^verbatim>\<open>int(m.group(1))\<close>.  Names are byte strings here, so \<^verbatim>\<open>\d\<close> is an ASCII digit.
\<close>

definition match_segment :: "string \<Rightarrow> nat option" where
  "match_segment name =
     (let ds = take 5 (drop 8 name); rest = drop 16 name
      in if take 8 name = ''segment_'' \<and> length ds = 5 \<and> list_all is_digit ds
            \<and> take 3 (drop 13 name) = ''.ts'' \<and> (rest = [] \<or> rest = [CHR 0x0A])
         then Some (int_of_digits ds) else None)"

text \<open>The loop body: \<^verbatim>\<open>if m: idx = int(m.group(1)); if idx > max_idx: max_idx = idx\<close>.\<close>

definition scan_name :: "int \<Rightarrow> string \<Rightarrow> int" where
  "scan_name max_idx name =
     (case match_segment name of
        None \<Rightarrow> max_idx
      | Some idx \<Rightarrow> if int idx > max_idx then int idx else max_idx)"

text \<open>
  The directory is \<open>None\<close> when \<^verbatim>\<open>os.path.isdir(stream_dir)\<close> is false, otherwise the
  names \<^verbatim>\<open>os.listdir\<close> returns.
\<close>

definition next_segment_start_number :: "string list option \<Rightarrow> int" where
  "next_segment_start_number stream_dir =
     (let max_idx = (case stream_dir of None \<Rightarrow> -1 | Some names \<Rightarrow> foldl scan_name (-1) names)
      in if max_idx \<ge> 0 then max_idx + 1 else 0)"

text \<open>
  The segment template \<^verbatim>\<open>segment_%05d.ts\<close> handed to the transcoder: at least five digits.
\<close>

definition segment_name :: "nat \<Rightarrow> string" where
  "segment_name i = ''segment_'' @ zfill 5 (str_nat i) @ ''.ts''"

text \<open>
  \<^verbatim>\<open>add_batch_to_hls\<close>: creates the directory if needed, chooses the start number and
  runs the transcoder with \<^verbatim>\<open>-start_number\<close> and the segment template.  The transcoder is
  external; its effect is taken to be what the call asks for: \<open>k\<close> segment files numbered
  from the start number on, and the playlist.  The model returns the numbers written and
  the new directory listing.
\<close>

definition add_batch_to_hls :: "nat \<Rightarrow> string list option \<Rightarrow> nat list \<times> string list" where
  "add_batch_to_hls k stream_dir =
     (let names = (case stream_dir of None \<Rightarrow> [] | Some ns \<Rightarrow> ns);
          start_number = nat (next_segment_start_number (Some names));
          written = [start_number ..< start_number + k]
      in (written, remdups (names @ map segment_name written @ [''output.m3u8''])))"

text \<open>\<open>N\<close> sequential appends; the \<open>i\<close>-th writes \<open>ks ! i\<close> segments.\<close>

fun append_calls :: "nat list \<Rightarrow> string list option \<Rightarrow> nat list" where
  "append_calls [] stream_dir = []"
| "append_calls (k # ks) stream_dir =
     (let (written, names) = add_batch_to_hls k stream_dir
      in written @ append_calls ks (Some names))"

text \<open>The segment numbers of a directory as the scan sees them.\<close>

definition segment_numbers :: "string list \<Rightarrow> nat set" where
  "segment_numbers names = {i. \<exists>name \<in> set names. match_segment name = Some i}"

section \<open>Batch assembler and run entry point: \<^verbatim>\<open>src/main.py\<close>\<close>

datatype warning = BatchAppendFailed nat py_exception | FinalHlsFailed py_exception

record 'img run_state =
  all_frames :: "(string \<times> 'img) list"
  next_index :: nat
  warnings :: "warning list"

text \<open>
  The collaborators of \<^verbatim>\<open>main\<close>: the depth model, the transcoder and the per-batch
  pipeline.  Each field is the outcome of the call: \<open>None\<close> when it returns, \<open>Some e\<close>
  when it raises \<open>e\<close>.  \<open>process_batch\<close> gives the contents of the \<^verbatim>\<open>.png\<close> files of
  the batch's \<^verbatim>\<open>frames_combined\<close> directory in sorted name order, which is what
  \<^verbatim>\<open>main\<close> lists after the call.
\<close>

record 'img tools =
  load_model :: "py_exception option"
  extract_audio :: "py_exception option"
  process_batch :: "batch \<Rightarrow> py_exception + 'img list"
  encode_batch :: "nat \<Rightarrow> py_exception option"
  append_batch_hls :: "nat \<Rightarrow> py_exception option"
  encode_final :: "py_exception option"
  mux_audio :: "py_exception option"
  publish_stream :: "py_exception option"
  inject_metadata :: "py_exception option"
  publish_final_hls :: "py_exception option"

text \<open>
  \<^verbatim>\<open>frames_to_segment\<close> (\<^verbatim>\<open>src/frames_to_video.py\<close>): raises \<^verbatim>\<open>ValueError\<close> when the
  directory holds no PNG file, otherwise runs the transcoder.
\<close>

definition frames_to_segment :: "bool \<Rightarrow> py_exception option \<Rightarrow> py_exception option" where
  "frames_to_segment no_png_files transcoder =
     (if no_png_files then Some ValueError else transcoder)"

text \<open>
  The inner loop of \<^verbatim>\<open>main\<close>:
  \<^verbatim>\<open>for f in batch_files: shutil.copy(src, frame_{next_index:06d}.png); next_index += 1\<close>.
\<close>

fun copy_frames :: "'img list \<Rightarrow> 'img run_state \<Rightarrow> 'img run_state" where
  "copy_frames [] st = st"
| "copy_frames (f # fs) st =
     copy_frames fs (st\<lparr>all_frames := dir_write (frame_name (next_index st)) f (all_frames st),
                        next_index := next_index st + 1\<rparr>)"

text \<open>The body of the \<^verbatim>\<open>try\<close> block after a batch was copied.\<close>

definition publish_batch :: "'img tools \<Rightarrow> nat \<Rightarrow> 'img list \<Rightarrow> py_exception option" where
  "publish_batch t i files =
     (case frames_to_segment (files = []) (encode_batch t i) of
        Some e \<Rightarrow> Some e
      | None \<Rightarrow> append_batch_hls t i)"

text \<open>\<^verbatim>\<open>for i, batch in enumerate(batches)\<close>; an exception of \<open>process_batch\<close> ends the run.\<close>

fun batch_loop ::
  "'img tools \<Rightarrow> nat \<Rightarrow> batch list \<Rightarrow> 'img run_state \<Rightarrow> py_exception + 'img run_state" where
  "batch_loop t i [] st = Inr st"
| "batch_loop t i (b # bs) st =
     (case process_batch t b of
        Inl e \<Rightarrow> Inl e
      | Inr files \<Rightarrow>
          let st1 = copy_frames files st;
              st2 = (case publish_batch t i files of
                       None \<Rightarrow> st1
                     | Some e \<Rightarrow> st1\<lparr>warnings := warnings st1 @ [BatchAppendFailed i e]\<rparr>)
          in batch_loop t (Suc i) bs st2)"

text \<open>
  What \<^verbatim>\<open>main\<close> does after the loop: the final encode, the audio mux, the append of the
  full video to the stream directory, the metadata injection, and the final HLS playlist
  inside its own \<^verbatim>\<open>try\<close> block.
\<close>

definition finalize :: "'img tools \<Rightarrow> bool \<Rightarrow> 'img run_state \<Rightarrow> py_exception + 'img run_state" where
  "finalize t add_audio st =
     (case frames_to_segment (all_frames st = []) (encode_final t) of
        Some e \<Rightarrow> Inl e
      | None \<Rightarrow>
     (case (if add_audio then mux_audio t else None) of
        Some e \<Rightarrow> Inl e
      | None \<Rightarrow>
     (case publish_stream t of
        Some e \<Rightarrow> Inl e
      | None \<Rightarrow>
     (case inject_metadata t of
        Some e \<Rightarrow> Inl e
      | None \<Rightarrow>
     (case publish_final_hls t of
        Some e \<Rightarrow> Inr (st\<lparr>warnings := warnings st @ [FinalHlsFailed e]\<rparr>)
      | None \<Rightarrow> Inr st)))))"

definition run_init :: "'img run_state" where
  "run_init = \<lparr>all_frames = [], next_index = 0, warnings = []\<rparr>"

definition main ::
  "'img tools \<Rightarrow> 'f capture \<Rightarrow> (string \<times> 'f) list \<Rightarrow> string \<Rightarrow> int \<Rightarrow> bool
     \<Rightarrow> py_exception + 'img run_state" where
  "main t cap store frames_dir batch_size add_audio =
     (case read_and_write_batches cap store frames_dir batch_size of
        Inl e \<Rightarrow> Inl e
      | Inr ((bs, meta), store') \<Rightarrow>
     (case load_model t of
        Some e \<Rightarrow> Inl e
      | None \<Rightarrow>
     (case (if add_audio then extract_audio t else None) of
        Some e \<Rightarrow> Inl e
      | None \<Rightarrow>
     (case batch_loop t 0 bs run_init of
        Inl e \<Rightarrow> Inl e
      | Inr st \<Rightarrow> finalize t add_audio st))))"

text \<open>The frames a batch contributes, and collaborators that never fail.\<close>

definition batch_files :: "'img tools \<Rightarrow> batch \<Rightarrow> 'img list" where
  "batch_files t b = (case process_batch t b of Inl _ \<Rightarrow> [] | Inr files \<Rightarrow> files)"

definition ok_tools :: "nat tools" where
  "ok_tools = \<lparr>load_model = None, extract_audio = None,
     process_batch = (\<lambda>(k, s, e, ps). Inr (map length ps)),
     encode_batch = (\<lambda>_. None), append_batch_hls = (\<lambda>_. None),
     encode_final = None, mux_audio = None, publish_stream = None,
     inject_metadata = None, publish_final_hls = None\<rparr>"

text \<open>
  Auxiliary notions for the proofs about the assembler: the invariant of the global
  sequence, and the warnings the loop logs from batch position \<open>i\<close> on.
\<close>

definition seq_inv :: "'img run_state \<Rightarrow> bool" where
  "seq_inv st \<longleftrightarrow> map fst (all_frames st) = map frame_name [0 ..< next_index st]"

fun batch_warnings :: "'img tools \<Rightarrow> nat \<Rightarrow> batch list \<Rightarrow> warning list" where
  "batch_warnings t i [] = []"
| "batch_warnings t i (b # bs) =
     (case publish_batch t i (batch_files t b) of
        None \<Rightarrow> []
      | Some e \<Rightarrow> [BatchAppendFailed i e]) @ batch_warnings t (Suc i) bs"

text \<open>
  Collaborators whose incremental append fails for the second batch and whose final HLS
  step fails as well.
\<close>

definition flaky_tools :: "nat tools" where
  "flaky_tools = ok_tools\<lparr>
     append_batch_hls := (\<lambda>i. if i = 1 then Some CalledProcessError else None),
     publish_final_hls := Some CalledProcessError\<rparr>"

section \<open>Images\<close>

text \<open>
  An image is a \<^verbatim>\<open>uint8\<close> array of shape \<open>(H, W, 3)\<close>: a list of rows of pixels, a pixel
  being its three channel values \<open>(channel 0, channel 1, channel 2)\<close>.  Arrays read by
  \<^verbatim>\<open>cv2.imread\<close> and written by \<^verbatim>\<open>cv2.imwrite\<close> are in OpenCV's BGR order: channel 0
  is blue, channel 1 is green, channel 2 is red.
\<close>

type_synonym pixel = "8 word \<times> 8 word \<times> 8 word"
type_synonym image = "pixel list list"

definition ch0 :: "pixel \<Rightarrow> 8 word" where "ch0 p = fst p"
definition ch1 :: "pixel \<Rightarrow> 8 word" where "ch1 p = fst (snd p)"
definition ch2 :: "pixel \<Rightarrow> 8 word" where "ch2 p = snd (snd p)"

definition blue_of :: "pixel \<Rightarrow> 8 word" where "blue_of p = ch0 p"
definition green_of :: "pixel \<Rightarrow> 8 word" where "green_of p = ch1 p"
definition red_of :: "pixel \<Rightarrow> 8 word" where "red_of p = ch2 p"

definition black :: pixel where "black = (0, 0, 0)"

definition height :: "'a list list \<Rightarrow> nat" where
  "height img = length img"

definition width :: "'a list list \<Rightarrow> nat" where
  "width img = (case img of [] \<Rightarrow> 0 | row # _ \<Rightarrow> length row)"

text \<open>A well-formed array: all rows have the array's width.\<close>

definition rect :: "'a list list \<Rightarrow> bool" where
  "rect img = list_all (\<lambda>row. length row = width img) img"

section \<open>Stereo synthesizer: \<^verbatim>\<open>src/stereo.py\<close>\<close>

text \<open>
  Indexing a one-dimensional array: reading at an index taken from \<^verbatim>\<open>range\<close>, and
  writing at a computed index, where a negative index counts from the end and an index
  outside \<open>[-n, n)\<close> raises \<^verbatim>\<open>IndexError\<close>.
\<close>

definition np_get :: "'a list \<Rightarrow> nat \<Rightarrow> py_exception + 'a" where
  "np_get xs i = (if i < length xs then Inr (xs ! i) else Inl IndexError)"

definition np_set :: "'a list \<Rightarrow> int \<Rightarrow> 'a \<Rightarrow> py_exception + 'a list" where
  "np_set xs i v =
     (let n = int (length xs)
      in if - n \<le> i \<and> i < n then Inr (xs[nat (if i < 0 then i + n else i) := v])
         else Inl IndexError)"

text \<open>
  The \<^verbatim>\<open>float32\<close> arithmetic of the shift.  A \<^verbatim>\<open>float32\<close> value is a rational number;
  every operation takes the exact result and rounds it to the nearest number with a
  significand of 24 bits, ties to the even significand.  \<open>f32_exponent q\<close> is the binary
  exponent of \<open>q\<close> within the normal range, and the spacing of the \<^verbatim>\<open>float32\<close> numbers
  around \<open>q\<close> is \<open>2\<close> to the power of that exponent minus 23, or \<open>2\<close> to the power of
  \<open>-149\<close> below the normal range.  Magnitudes from \<open>2\<close> to the power of 128 on, where
  \<^verbatim>\<open>float32\<close> has infinity, are outside the model.
\<close>

definition round_half_even :: "rat \<Rightarrow> int" where
  "round_half_even x =
     (let f = \<lfloor>x\<rfloor>; r = x - of_int f
      in if r < 1 / 2 then f else if 1 / 2 < r then f + 1 else if even f then f else f + 1)"

definition pow2 :: "int \<Rightarrow> rat" where
  "pow2 e = (if 0 \<le> e then 2 ^ nat e else 1 / 2 ^ nat (- e))"

definition f32_exponent :: "rat \<Rightarrow> int option" where
  "f32_exponent q = find (\<lambda>e. pow2 e \<le> \<bar>q\<bar>) (rev [- 126 .. 127])"

definition f32_ulp :: "rat \<Rightarrow> rat" where
  "f32_ulp q = (case f32_exponent q of None \<Rightarrow> pow2 (- 149) | Some e \<Rightarrow> pow2 (e - 23))"

definition f32 :: "rat \<Rightarrow> rat" where
  "f32 q = of_int (round_half_even (q / f32_ulp q)) * f32_ulp q"

text \<open>
  \<^verbatim>\<open>astype(np.int32)\<close> on a \<^verbatim>\<open>float32\<close> value truncates toward zero; a value outside the
  range of \<^verbatim>\<open>int32\<close> becomes the smallest \<^verbatim>\<open>int32\<close>, as the conversion instruction of
  x86 gives it.
\<close>

definition astype_int32 :: "rat \<Rightarrow> int" where
  "astype_int32 q =
     (let t = py_int q in if - (2 ^ 31) \<le> t \<and> t < 2 ^ 31 then t else - (2 ^ 31))"

text \<open>
  The shift of one pixel: \<^verbatim>\<open>depth = depth.astype(np.float32) / 255.0\<close>, then
  \<^verbatim>\<open>shift = (1 - depth) * max_shift\<close> with \<open>max_shift\<close> converted to \<^verbatim>\<open>float32\<close>, then
  \<^verbatim>\<open>shift[y].astype(np.int32)\<close>.
\<close>

definition normalize_depth :: "8 word \<Rightarrow> rat" where
  "normalize_depth g = f32 (of_nat (unat g) / 255)"

definition shift_px :: "rat \<Rightarrow> int \<Rightarrow> int" where
  "shift_px depth max_shift = astype_int32 (f32 (f32 (1 - depth) * f32 (of_int max_shift)))"

text \<open>
  The shift field: \<^verbatim>\<open>np.ones((H, W))\<close> stands in for an absent depth map; a depth map is
  the grey image \<^verbatim>\<open>cv2.imread(dpath, cv2.IMREAD_GRAYSCALE)\<close> returned.
\<close>

definition shift_field ::
  "nat \<Rightarrow> nat \<Rightarrow> 8 word list list option \<Rightarrow> int \<Rightarrow> int list list" where
  "shift_field H W depth max_shift =
     (case depth of
        None \<Rightarrow> replicate H (replicate W (shift_px 1 max_shift))
      | Some dm \<Rightarrow> map (map (\<lambda>g. shift_px (normalize_depth g) max_shift)) dm)"

text \<open>
  The inner loop \<^verbatim>\<open>for x in range(W)\<close> over the columns still to do, on the rows
  \<open>(left_eye[y], right_eye[y])\<close>.  The sums \<open>x + dx\<close> and \<open>x - dx\<close> are the mathematical
  ones; those of the source are taken in \<^verbatim>\<open>int32\<close> and are the same as long as the frame
  is at most \<open>2 ^ 30\<close> pixels wide and the shift is between 0 and \<open>2 ^ 30\<close>.
\<close>

fun scatter_row ::
  "nat \<Rightarrow> pixel list \<Rightarrow> int list \<Rightarrow> nat list \<Rightarrow> pixel list \<times> pixel list
     \<Rightarrow> py_exception + pixel list \<times> pixel list" where
  "scatter_row W frow dx_row [] lr = Inr lr"
| "scatter_row W frow dx_row (x # xs) lr =
     (case np_get dx_row x of
        Inl e \<Rightarrow> Inl e
      | Inr dx \<Rightarrow>
          let nl = min (int W - 1) (int x + dx);
              nr = max 0 (int x - dx)
          in (case np_set (fst lr) nl (frow ! x) of
                Inl e \<Rightarrow> Inl e
              | Inr l \<Rightarrow>
                  (case np_set (snd lr) nr (frow ! x) of
                     Inl e \<Rightarrow> Inl e
                   | Inr r \<Rightarrow> scatter_row W frow dx_row xs (l, r))))"

text \<open>
  The outer loop \<^verbatim>\<open>for y in range(H)\<close> over the rows still to do; \<open>y\<close> is the index of
  the first of them.  Both eye images start as \<^verbatim>\<open>np.zeros_like(frame)\<close>.
\<close>

fun scatter_rows ::
  "nat \<Rightarrow> int list list \<Rightarrow> nat \<Rightarrow> pixel list list \<Rightarrow> py_exception + image \<times> image" where
  "scatter_rows W shift y [] = Inr ([], [])"
| "scatter_rows W shift y (frow # rest) =
     (case np_get shift y of
        Inl e \<Rightarrow> Inl e
      | Inr dx_row \<Rightarrow>
          (case scatter_row W frow dx_row [0 ..< W] (replicate W black, replicate W black) of
             Inl e \<Rightarrow> Inl e
           | Inr (l, r) \<Rightarrow>
               (case scatter_rows W shift (Suc y) rest of
                  Inl e \<Rightarrow> Inl e
                | Inr (ls, rs) \<Rightarrow> Inr (l # ls, r # rs))))"

text \<open>The two eye images before hole detection.\<close>

definition scatter_frame ::
  "image \<Rightarrow> 8 word list list option \<Rightarrow> int \<Rightarrow> py_exception + image \<times> image" where
  "scatter_frame frame depth max_shift =
     (let H = height frame; W = width frame
      in scatter_rows W (shift_field H W depth max_shift) 0 frame)"

text \<open>
  \<^verbatim>\<open>(eye.sum(axis=2) == 0)\<close>: the sum of \<^verbatim>\<open>uint8\<close> values is taken in a wider integer
  type, so it does not wrap.
\<close>

definition hole :: "pixel \<Rightarrow> bool" where
  "hole p = (unat (ch0 p) + unat (ch1 p) + unat (ch2 p) = 0)"

definition hole_mask :: "image \<Rightarrow> bool list list" where
  "hole_mask eye = map (map hole) eye"

text \<open>
  \<^verbatim>\<open>cv2.inpaint(eye, mask, 3, cv2.INPAINT_TELEA)\<close> belongs to OpenCV.  It leaves a pixel
  outside the mask as it is.  When the mask covers every pixel there is no known value
  to propagate and the image comes back as it is.  Otherwise the value it gives a pixel
  of the mask is the parameter \<open>fill\<close>, a function of the image, the mask and the
  position.
\<close>

type_synonym filler = "image \<Rightarrow> bool list list \<Rightarrow> nat \<Rightarrow> nat \<Rightarrow> pixel"

definition all_masked :: "bool list list \<Rightarrow> bool" where
  "all_masked inpaint_mask = list_all (list_all (\<lambda>b. b)) inpaint_mask"

definition inpaint :: "filler \<Rightarrow> image \<Rightarrow> bool list list \<Rightarrow> image" where
  "inpaint fill eye inpaint_mask =
     (if all_masked inpaint_mask then eye
      else map (\<lambda>y. map (\<lambda>x. if inpaint_mask ! y ! x then fill eye inpaint_mask y x
                             else eye ! y ! x)
                      [0 ..< length (eye ! y)])
               [0 ..< length eye])"

definition generate_stereo_from_depth_frame ::
  "filler \<Rightarrow> image \<Rightarrow> 8 word list list option \<Rightarrow> int \<Rightarrow> py_exception + image \<times> image" where
  "generate_stereo_from_depth_frame fill frame depth max_shift =
     (case scatter_frame frame depth max_shift of
        Inl e \<Rightarrow> Inl e
      | Inr (left_eye, right_eye) \<Rightarrow>
          Inr (inpaint fill left_eye (hole_mask left_eye),
               inpaint fill right_eye (hole_mask right_eye)))"

text \<open>
  The columns the loop writes for source column \<open>x\<close>, and the source column whose pixel
  a destination column holds when the row is done: the last one written there.
\<close>

definition left_col :: "nat \<Rightarrow> int list \<Rightarrow> nat \<Rightarrow> int" where
  "left_col W dx_row x = min (int W - 1) (int x + dx_row ! x)"

definition right_col :: "int list \<Rightarrow> nat \<Rightarrow> int" where
  "right_col dx_row x = max 0 (int x - dx_row ! x)"

definition last_writer :: "(nat \<Rightarrow> int) \<Rightarrow> nat list \<Rightarrow> nat \<Rightarrow> nat option" where
  "last_writer col xs c = find (\<lambda>x. col x = int c) (rev xs)"

definition scattered :: "(nat \<Rightarrow> int) \<Rightarrow> pixel list \<Rightarrow> nat list \<Rightarrow> pixel list \<Rightarrow> nat \<Rightarrow> pixel" where
  "scattered col frow xs old c =
     (case last_writer col xs c of None \<Rightarrow> old ! c | Some x \<Rightarrow> frow ! x)"

text \<open>
  The depth map covers the frame: it has a row for every row of the frame, and each of
  those rows has an entry for every column.  An absent depth map always does.
\<close>

definition depth_covers :: "image \<Rightarrow> 8 word list list option \<Rightarrow> bool" where
  "depth_covers frame depth =
     (case depth of
        None \<Rightarrow> True
      | Some dm \<Rightarrow> height frame \<le> length dm \<and>
          list_all (\<lambda>row. width frame \<le> length row) (take (height frame) dm))"

text \<open>The normalised depth at a pixel: \<open>1.0\<close> everywhere when the depth map is absent.\<close>

definition depth_at :: "8 word list list option \<Rightarrow> nat \<Rightarrow> nat \<Rightarrow> rat" where
  "depth_at depth y x =
     (case depth of None \<Rightarrow> 1 | Some dm \<Rightarrow> normalize_depth (dm ! y ! x))"

text \<open>Row \<open>j\<close> of the shift field exists and has an entry for each of the \<open>W\<close> columns.\<close>

definition row_fits :: "nat \<Rightarrow> int list list \<Rightarrow> nat \<Rightarrow> bool" where
  "row_fits W shift j \<longleftrightarrow> j < length shift \<and> W \<le> length (shift ! j)"

text \<open>The eye images the scatter leaves, stated column by column.\<close>

definition left_eye_of :: "nat \<Rightarrow> int list list \<Rightarrow> image \<Rightarrow> image" where
  "left_eye_of W shift frame =
     map (\<lambda>y. map (scattered (left_col W (shift ! y)) (frame ! y) [0 ..< W] (replicate W black))
                 [0 ..< W])
         [0 ..< length frame]"

definition right_eye_of :: "nat \<Rightarrow> int list list \<Rightarrow> image \<Rightarrow> image" where
  "right_eye_of W shift frame =
     map (\<lambda>y. map (scattered (right_col (shift ! y)) (frame ! y) [0 ..< W] (replicate W black))
                 [0 ..< W])
         [0 ..< length frame]"

text \<open>
  The value the inpainting leaves at a pixel of the mask: the pixel itself when the whole
  image is masked, the filler's value otherwise.
\<close>

definition inpainted :: "filler \<Rightarrow> image \<Rightarrow> nat \<Rightarrow> nat \<Rightarrow> pixel" where
  "inpainted fill eye y x =
     (if all_masked (hole_mask eye) then eye ! y ! x else fill eye (hole_mask eye) y x)"

text \<open>Sample inputs: a filler, and frames of 3 by 3 pixels.\<close>

definition grey_fill :: filler where
  "grey_fill eye inpaint_mask y x = (128, 128, 128)"

definition black_frame :: image where
  "black_frame = replicate 3 (replicate 3 (0, 0, 0))"

definition sample_frame :: image where
  "sample_frame = [[(1, 1, 1), (2, 2, 2), (3, 3, 3)],
                   [(4, 4, 4), (0, 0, 0), (6, 6, 6)],
                   [(7, 7, 7), (8, 8, 8), (9, 9, 9)]]"

definition sample_depth :: "8 word list list" where
  "sample_depth = [[255, 0, 255], [255, 255, 255], [0, 255, 255]]"

section \<open>Anaglyph compositor: \<^verbatim>\<open>src/anaglyph_processor.py\<close>\<close>

text \<open>
  The three channel assignments of \<^verbatim>\<open>create_anaglyph_from_stereo\<close> on one pixel:
  \<^verbatim>\<open>anaglyph[:, :, 0] = left[:, :, 2]\<close>, \<^verbatim>\<open>anaglyph[:, :, 1] = right[:, :, 1]\<close>,
  \<^verbatim>\<open>anaglyph[:, :, 2] = right[:, :, 0]\<close>.
\<close>

definition anaglyph_pixel :: "pixel \<Rightarrow> pixel \<Rightarrow> pixel" where
  "anaglyph_pixel l r = (ch2 l, ch1 r, ch0 r)"

definition same_shape :: "image \<Rightarrow> image \<Rightarrow> bool" where
  "same_shape a b = (map length a = map length b)"

text \<open>
  The images are what \<^verbatim>\<open>cv2.imread\<close> returned (\<open>None\<close> when the file could not be read);
  \<open>imwrite_ok\<close> is the answer of \<^verbatim>\<open>cv2.imwrite\<close>.  The function returns its success flag;
  the model returns the array handed to \<^verbatim>\<open>cv2.imwrite\<close> as well.  Arrays of different
  shapes make the channel assignment raise, which the function catches and answers with
  \<^verbatim>\<open>False\<close> (shapes that numpy would broadcast are not modelled).
\<close>

definition create_anaglyph_from_stereo ::
  "image option \<Rightarrow> image option \<Rightarrow> bool \<Rightarrow> bool \<times> image option" where
  "create_anaglyph_from_stereo left right imwrite_ok =
     (case (left, right) of
        (Some l, Some r) \<Rightarrow>
          if same_shape l r
          then (imwrite_ok, Some (map2 (map2 anaglyph_pixel) l r))
          else (False, None)
      | _ \<Rightarrow> (False, None))"

section \<open>Projection mapper: \<^verbatim>\<open>src/projection.py\<close>\<close>

text \<open>
  The source computes in floating point; the model computes in the reals, extended by the
  two infinities and NaN, which a division by zero brings in.  The operations below are
  those the mapping uses: a finite number times a value, a value divided by a value, a
  value plus a finite number.  A product of zero and an infinity is NaN, a finite number
  divided by an infinity is zero, a number other than zero divided by zero is the
  infinity of its sign, and zero divided by zero is NaN.
\<close>

datatype float_val = Finite real | PosInf | NegInf | NaN

definition float_of_sign :: "real \<Rightarrow> float_val" where
  "float_of_sign s = (if 0 < s then PosInf else if s < 0 then NegInf else NaN)"

fun fmul :: "real \<Rightarrow> float_val \<Rightarrow> float_val" where
  "fmul x (Finite f) = Finite (x * f)"
| "fmul x PosInf = float_of_sign x"
| "fmul x NegInf = float_of_sign (- x)"
| "fmul x NaN = NaN"

fun fdiv :: "float_val \<Rightarrow> float_val \<Rightarrow> float_val" where
  "fdiv (Finite a) (Finite b) = (if b = 0 then float_of_sign a else Finite (a / b))"
| "fdiv (Finite a) PosInf = Finite 0"
| "fdiv (Finite a) NegInf = Finite 0"
| "fdiv PosInf (Finite b) = (if b < 0 then NegInf else PosInf)"
| "fdiv NegInf (Finite b) = (if b < 0 then PosInf else NegInf)"
| "fdiv a b = NaN"

fun fadd :: "float_val \<Rightarrow> real \<Rightarrow> float_val" where
  "fadd (Finite a) b = Finite (a + b)"
| "fadd a b = a"

text \<open>
  The lookup tables are functions of the destination pixel \<open>(y_out, x_out)\<close>; an entry is
  \<open>(x_coords, y_coords, valid_mask)\<close>, all three left at their initial zero where the pixel
  is not valid.  The test \<^verbatim>\<open>0 <= x_flat < w-1\<close> is false when \<open>x_flat\<close> is an infinity or NaN.
\<close>

definition create_mapping_arrays ::
  "nat \<Rightarrow> nat \<Rightarrow> float_val \<Rightarrow> real \<Rightarrow> real \<Rightarrow> nat \<Rightarrow> nat \<Rightarrow> real \<times> real \<times> bool" where
  "create_mapping_arrays output_width output_height focal w h y_out x_out =
     (let longitude = (real x_out / real output_width - 0.5) * pi;
          latitude = (real y_out / real output_height - 0.5) * (pi / 2);
          x_dir = cos latitude * sin longitude;
          y_dir = sin latitude;
          z_dir = cos latitude * cos longitude
      in if z_dir > 0
         then (let x_flat = fadd (fdiv (fmul x_dir focal) (Finite z_dir)) (w / 2);
                   y_flat = fadd (fdiv (fmul (- y_dir) focal) (Finite z_dir)) (h / 2)
               in case (x_flat, y_flat) of
                    (Finite xf, Finite yf) \<Rightarrow>
                       if 0 \<le> xf \<and> xf < w - 1 \<and> 0 \<le> yf \<and> yf < h - 1
                       then (xf, yf, True)
                       else (0, 0, False)
                  | _ \<Rightarrow> (0, 0, False))
         else (0, 0, False))"


text \<open>
  \<^verbatim>\<open>np.tan\<close>: the tangent, infinite where the real tangent has a pole (there the source has
  a number of magnitude above \<open>10\<close> to the power of 16).
\<close>

definition np_tan :: "real \<Rightarrow> float_val" where
  "np_tan x = (if cos x = 0 then PosInf else Finite (tan x))"

text \<open>
  \<^verbatim>\<open>focal = (w / 2) / np.tan(np.radians(field_of_view) / 2)\<close>.  At a field of view of 0
  the tangent is 0 and \<open>focal\<close> is infinite.  At the other multiples of 360 degrees the real
  tangent is 0 as well, while the source's argument is not an exact multiple of \<open>pi\<close> and
  its tangent not 0: the model is not used there.
\<close>

definition focal_of :: "real \<Rightarrow> real \<Rightarrow> float_val" where
  "focal_of field_of_view w = fdiv (Finite (w / 2)) (np_tan ((field_of_view * pi / 180) / 2))"

text \<open>
  \<^verbatim>\<open>flat_to_vr180_spherical_optimized\<close> for an image of height \<open>h\<close> and width \<open>w\<close>:
  \<^verbatim>\<open>cv2.remap\<close> samples the image at the table's coordinates (the sampler is the
  parameter \<open>sample\<close>), then \<^verbatim>\<open>result[~valid_mask] = 0\<close>.  The result is given per
  destination pixel, with its mask bit.
\<close>

definition flat_to_vr180_spherical_optimized ::
  "(real \<Rightarrow> real \<Rightarrow> pixel) \<Rightarrow> nat \<Rightarrow> nat \<Rightarrow> nat \<Rightarrow> real \<Rightarrow> nat \<Rightarrow> nat \<Rightarrow> pixel \<times> bool" where
  "flat_to_vr180_spherical_optimized sample h w output_width field_of_view y_out x_out =
     (let output_height = output_width div 2;
          focal = focal_of field_of_view (real w);
          (x_flat, y_flat, valid) =
             create_mapping_arrays output_width output_height focal (real w) (real h) y_out x_out
      in (if valid then sample x_flat y_flat else black, valid))"



section \<open>Properties of the frame extractor\<close>

lemma reader_inv_init: "0 < B \<Longrightarrow> reader_inv d B (reader_init store)"
  by (simp add: reader_inv_def reader_init_def)

lemma reader_step_frame_idx: "frame_idx (reader_step d b f st) = Suc (frame_idx st)"
  by (simp add: reader_step_def Let_def)

lemma reader_step_inv:
  assumes "reader_inv d B st"
  shows "reader_inv d B (reader_step d (int B) f st)"
proof -
  from assms have lt: "length (current_batch st) < B"
    and fi: "frame_idx st = batch_idx st * B + length (current_batch st)"
    and cur: "current_batch st = map (outpath d) [batch_idx st * B ..< frame_idx st]"
    and bs: "batches st = map (full_batch d B) [0 ..< batch_idx st]"
    unfolding reader_inv_def by blast+
  have le: "batch_idx st * B \<le> frame_idx st" using fi by simp
  have cur': "current_batch st @ [outpath d (frame_idx st)]
      = map (outpath d) [batch_idx st * B ..< Suc (frame_idx st)]"
    using cur le by simp
  show ?thesis
  proof (cases "Suc (length (current_batch st)) < B")
    case True
    then have "reader_step d (int B) f st =
       st\<lparr>frame_store := dir_write (outpath d (frame_idx st)) f (frame_store st),
          current_batch := current_batch st @ [outpath d (frame_idx st)],
          frame_idx := frame_idx st + 1\<rparr>"
      by (simp add: reader_step_def Let_def outpath_def)
    then show ?thesis
      using True fi cur' bs by (simp add: reader_inv_def del: upt_Suc)
  next
    case False
    with lt have len: "Suc (length (current_batch st)) = B" by simp
    have fi': "Suc (frame_idx st) = Suc (batch_idx st) * B" using fi len by simp
    have step: "reader_step d (int B) f st =
       st\<lparr>frame_store := dir_write (outpath d (frame_idx st)) f (frame_store st),
          current_batch := [],
          frame_idx := frame_idx st + 1,
          batches := batches st @ [(batch_idx st, int (Suc (frame_idx st)) - int B,
             int (Suc (frame_idx st)) - 1, current_batch st @ [outpath d (frame_idx st)])],
          batch_idx := batch_idx st + 1\<rparr>"
      using len by (simp add: reader_step_def Let_def outpath_def flush_batch_def)
    have fb: "(batch_idx st, int (Suc (frame_idx st)) - int B,
             int (Suc (frame_idx st)) - 1, current_batch st @ [outpath d (frame_idx st)])
          = full_batch d B (batch_idx st)"
      unfolding full_batch_def cur' fi' by (simp add: algebra_simps)
    show ?thesis
      unfolding step fb using fi' bs lt by (simp add: reader_inv_def)
  qed
qed

lemma reader_loop_inv:
  "reader_inv d B st \<Longrightarrow>
     reader_inv d B (reader_loop d (int B) fs st) \<and>
     frame_idx (reader_loop d (int B) fs st) = frame_idx st + length fs"
proof (induction fs arbitrary: st)
  case Nil
  then show ?case by simp
next
  case (Cons f fs)
  from Cons.IH [OF reader_step_inv [OF Cons.prems, of f]]
  show ?case by (simp add: reader_step_frame_idx)
qed

lemma final_batches:
  assumes inv: "reader_inv d B st" and N: "frame_idx st = N"
  shows "(if current_batch st \<noteq> [] then batches st @ [flush_batch st] else batches st)
     = map (nth_batch d B N) [0 ..< (N + B - 1) div B]"
proof -
  from inv have lt: "length (current_batch st) < B"
    and fi: "frame_idx st = batch_idx st * B + length (current_batch st)"
    and cur: "current_batch st = map (outpath d) [batch_idx st * B ..< frame_idx st]"
    and bs: "batches st = map (full_batch d B) [0 ..< batch_idx st]"
    unfolding reader_inv_def by blast+
  define r where "r = length (current_batch st)"
  define q where "q = batch_idx st"
  have Nq: "N = q * B + r" and rB: "r < B" using fi N lt by (simp_all add: r_def q_def)
  have full: "full_batch d B k = nth_batch d B N k" if "k < q" for k
  proof -
    from that have "Suc k \<le> q" by simp
    then have "Suc k * B \<le> q * B" by (rule mult_le_mono1)
    then have "(k + 1) * B \<le> N" using Nq by simp
    then show ?thesis by (simp add: full_batch_def nth_batch_def min_def)
  qed
  have bs': "batches st = map (nth_batch d B N) [0 ..< q]"
    unfolding bs q_def [symmetric] using full by simp
  show ?thesis
  proof (cases "r = 0")
    case True
    obtain b where b: "B = Suc b" using rB by (cases B) auto
    have "(b + q * Suc b) div Suc b = q + b div Suc b" by (rule div_mult_self1) simp
    then have "(b + q * Suc b) div Suc b = q" by (simp only: div_less lessI add_0_right)
    moreover have "N + Suc b - 1 = b + q * Suc b" using Nq True b by simp
    ultimately have "(N + B - 1) div B = q" by (simp only: b)
    moreover have "current_batch st = []" using True by (simp add: r_def)
    ultimately show ?thesis using bs' by simp
  next
    case False
    obtain r' where r': "r = Suc r'" using False by (cases r) auto
    have "r' < B" using rB r' by simp
    moreover have "(r' + Suc q * B) div B = Suc q + r' div B"
      by (rule div_mult_self1) (use rB in simp)
    ultimately have "(r' + Suc q * B) div B = Suc q" by (simp only: div_less add_0_right)
    moreover have "N + B - 1 = r' + Suc q * B" using Nq r' by simp
    ultimately have d: "(N + B - 1) div B = Suc q" by (simp only:)
    have ne: "current_batch st \<noteq> []" using False by (auto simp: r_def)
    have m: "min ((q + 1) * B) N = N" using Nq rB by (simp add: min_def)
    have "flush_batch st = nth_batch d B N q"
      unfolding flush_batch_def nth_batch_def m
      using cur N Nq by (simp add: q_def [symmetric] r_def [symmetric])
    then show ?thesis using ne d bs' by simp
  qed
qed


lemma read_and_write_batches_eq:
  assumes B: "0 < B" and N: "N = length (cap_readable cap)"
  shows "\<exists>meta store'. read_and_write_batches cap store d (int B)
     = Inr ((map (nth_batch d B N) [0 ..< (N + B - 1) div B], meta), store')"
proof -
  define st where "st = reader_loop d (int B) (cap_readable cap) (reader_init store)"
  have "reader_inv d B st \<and> frame_idx st = frame_idx (reader_init store) + length (cap_readable cap)"
    unfolding st_def by (rule reader_loop_inv) (rule reader_inv_init [OF B])
  then have inv: "reader_inv d B st" and fi: "frame_idx st = N"
    using N by (simp_all add: reader_init_def)
  from final_batches [OF inv fi]
  show ?thesis
    by (simp add: read_and_write_batches_def Let_def st_def [symmetric])
qed

text \<open>
  Claim C2.  For an opened source with \<open>N\<close> decodable frames and a batch size
  \<open>B \<ge> 1\<close>, \<^verbatim>\<open>read_and_write_batches\<close> returns \<open>\<lceil>N / B\<rceil>\<close> batch descriptors.  The
  \<open>k\<close>-th is \<open>(k, k * B, min ((k + 1) * B) N - 1, paths)\<close>, so the ranges are consecutive
  and cover \<open>[0, N - 1]\<close>; every batch holds \<open>B\<close> frames except the last one, which holds
  \<open>N mod B\<close> when \<open>B\<close> does not divide \<open>N\<close>.
\<close>

theorem read_and_write_batches_partition:
  assumes "1 \<le> B" and "cap_opened cap" and "N = length (cap_frames cap)"
  shows "\<exists>bs meta store'.
     read_and_write_batches cap store d (int B) = Inr ((bs, meta), store') \<and>
     length bs = (N + B - 1) div B \<and>
     (\<forall>k < length bs.
        bs ! k = (k, int (k * B), int (min ((k + 1) * B) N) - 1,
                  map (outpath d) [k * B ..< min ((k + 1) * B) N]) \<and>
        length (batch_paths (bs ! k))
          = (if Suc k < length bs \<or> N mod B = 0 then B else N mod B))"
proof -
  from assms have B: "0 < B" and N: "N = length (cap_readable cap)"
    by (simp_all add: cap_readable_def)
  define L where "L = (N + B - 1) div B"
  from read_and_write_batches_eq [OF B N, of store d]
  obtain meta store' where r: "read_and_write_batches cap store d (int B)
     = Inr ((map (nth_batch d B N) [0 ..< L], meta), store')"
    unfolding L_def by blast
  have len: "length (batch_paths (nth_batch d B N k))
      = (if Suc k < L \<or> N mod B = 0 then B else N mod B)" if k: "k < L" for k
  proof -
    have kB: "k * B < N"
    proof (rule ccontr)
      assume "\<not> k * B < N"
      then have "N + B - 1 < Suc k * B" using B by simp
      then have "(N + B - 1) div B < Suc k" using B by (simp add: div_less_iff_less_mult)
      with k show False by (simp add: L_def)
    qed
    show ?thesis
    proof (cases "Suc k < L")
      case True
      then have "Suc (Suc k) \<le> (N + B - 1) div B" by (simp add: L_def)
      then have "Suc (Suc k) * B \<le> N + B - 1" using B by (simp add: less_eq_div_iff_mult_less_eq)
      then have "Suc k * B \<le> N" using B by simp
      then show ?thesis using True by (simp add: nth_batch_def batch_paths_def min_def)
    next
      case False
      with k have kL: "Suc k = L" by simp
      have NL: "N \<le> Suc k * B"
      proof (rule ccontr)
        assume "\<not> N \<le> Suc k * B"
        then have "Suc (Suc k) * B \<le> N + B - 1" using B by simp
        then have "Suc (Suc k) \<le> (N + B - 1) div B" using B by (simp add: less_eq_div_iff_mult_less_eq)
        with kL show False by (simp add: L_def)
      qed
      have q: "N = k * B + (N - k * B)" using kB by simp
      show ?thesis
      proof (cases "N mod B = 0")
        case True
        then have "B dvd N" by (simp add: mod_eq_0_iff_dvd)
        then obtain q where "N = B * q" by (rule dvdE)
        then have q: "N = q * B" by (simp add: mult.commute)
        from kB q B have "k < q" by simp
        moreover from NL q have "q * B \<le> Suc k * B" by simp
        then have "q \<le> Suc k" using B by (simp only: mult_le_cancel2)
        ultimately have "k < q" "q \<le> Suc k" by simp_all
        then have "q = Suc k" by simp
        with q False True show ?thesis by (simp add: nth_batch_def batch_paths_def)
      next
        case nz: False
        then have "N \<noteq> Suc k * B" by auto
        with NL have lt: "N < Suc k * B" by simp
        then have "N - k * B < B" using kB by (simp add: algebra_simps less_diff_conv2)
        then have "N mod B = N - k * B"
          by (metis q mod_mult_self3 mod_less)
        with False nz lt show ?thesis by (simp add: nth_batch_def batch_paths_def min_def)
      qed
    qed
  qed
  show ?thesis
    apply (rule exI [of _ "map (nth_batch d B N) [0 ..< L]"])
    apply (rule exI [of _ meta], rule exI [of _ store'])
    using r len by (simp add: L_def nth_batch_def)
qed


lemma list3: "length xs = 3 \<Longrightarrow> xs = [xs ! 0, xs ! 1, xs ! 2]"
  by (auto simp: numeral_3_eq_3 length_Suc_conv)

lemma list4: "length xs = 4 \<Longrightarrow> xs = [xs ! 0, xs ! 1, xs ! 2, xs ! 3]"
  by (auto simp: numeral_Bit0 numeral_3_eq_3 length_Suc_conv)

text \<open>
  The theorem at 90 and at 95 frames with batch size 30: the batches \<open>[0, 29]\<close>,
  \<open>[30, 59]\<close>, \<open>[60, 89]\<close>, and for 95 frames a fourth batch \<open>[90, 94]\<close> of 5 frames.
\<close>

theorem read_and_write_batches_partition_witness:
  "(1::nat) \<le> 30 \<and> cap_opened (sample_capture 90) \<and> cap_opened (sample_capture 95) \<and>
   90 = length (cap_frames (sample_capture 90)) \<and> 95 = length (cap_frames (sample_capture 95)) \<and>
   map (\<lambda>(k, s, e, ps). (k, s, e, length ps))
     (batches_of (read_and_write_batches (sample_capture 90) [] ''frames'' 30))
     = [(0, 0, 29, 30), (1, 30, 59, 30), (2, 60, 89, 30)] \<and>
   map (\<lambda>(k, s, e, ps). (k, s, e, length ps))
     (batches_of (read_and_write_batches (sample_capture 95) [] ''frames'' 30))
     = [(0, 0, 29, 30), (1, 30, 59, 30), (2, 60, 89, 30), (3, 90, 94, 5)]"
proof -
  have h1: "(1::nat) \<le> 30" by simp
  have o90: "cap_opened (sample_capture 90)" and o95: "cap_opened (sample_capture 95)"
    by (simp_all add: sample_capture_def)
  have n90: "90 = length (cap_frames (sample_capture 90))"
    and n95: "95 = length (cap_frames (sample_capture 95))"
    by (simp_all add: sample_capture_def)
  from read_and_write_batches_partition [OF h1 o90 n90, of "[]" "''frames''"]
  obtain bs meta store' where
    r: "read_and_write_batches (sample_capture 90) [] ''frames'' (int 30)
          = Inr ((bs, meta), store')"
    and len0: "length bs = (90 + 30 - 1) div 30"
    and nth: "\<forall>k<length bs. bs ! k = (k, int (k * 30), int (min ((k + 1) * 30) 90) - 1,
                  map (outpath ''frames'') [k * 30 ..< min ((k + 1) * 30) 90]) \<and>
        length (batch_paths (bs ! k)) = (if Suc k < length bs \<or> (90::nat) mod 30 = 0 then 30 else 90 mod 30)"
    by blast
  from len0 have len: "length bs = 3" by simp
  from nth len have b: "bs ! 0 = (0, 0, 29, map (outpath ''frames'') [0 ..< 30])"
    "bs ! 1 = (1, 30, 59, map (outpath ''frames'') [30 ..< 60])"
    "bs ! 2 = (2, 60, 89, map (outpath ''frames'') [60 ..< 90])"
    by simp_all
  have "bs = [bs ! 0, bs ! 1, bs ! 2]" using len by (rule list3)
  then have bs: "bs = [(0, 0, 29, map (outpath ''frames'') [0 ..< 30]),
     (1, 30, 59, map (outpath ''frames'') [30 ..< 60]),
     (2, 60, 89, map (outpath ''frames'') [60 ..< 90])]"
    unfolding b .
  have c90: "map (\<lambda>(k, s, e, ps). (k, s, e, length ps))
     (batches_of (read_and_write_batches (sample_capture 90) [] ''frames'' 30))
     = [(0, 0, 29, 30), (1, 30, 59, 30), (2, 60, 89, 30)]"
    using r unfolding bs by (simp add: batches_of_def)
  from read_and_write_batches_partition [OF h1 o95 n95, of "[]" "''frames''"]
  obtain bs' meta' store'' where
    r': "read_and_write_batches (sample_capture 95) [] ''frames'' (int 30)
          = Inr ((bs', meta'), store'')"
    and len0': "length bs' = (95 + 30 - 1) div 30"
    and nth': "\<forall>k<length bs'. bs' ! k = (k, int (k * 30), int (min ((k + 1) * 30) 95) - 1,
                  map (outpath ''frames'') [k * 30 ..< min ((k + 1) * 30) 95]) \<and>
        length (batch_paths (bs' ! k)) = (if Suc k < length bs' \<or> (95::nat) mod 30 = 0 then 30 else 95 mod 30)"
    by blast
  from len0' have len': "length bs' = 4" by simp
  from nth' len' have b': "bs' ! 0 = (0, 0, 29, map (outpath ''frames'') [0 ..< 30])"
    "bs' ! 1 = (1, 30, 59, map (outpath ''frames'') [30 ..< 60])"
    "bs' ! 2 = (2, 60, 89, map (outpath ''frames'') [60 ..< 90])"
    "bs' ! 3 = (3, 90, 94, map (outpath ''frames'') [90 ..< 95])"
    by simp_all
  have "bs' = [bs' ! 0, bs' ! 1, bs' ! 2, bs' ! 3]" using len' by (rule list4)
  then have bs': "bs' = [(0, 0, 29, map (outpath ''frames'') [0 ..< 30]),
     (1, 30, 59, map (outpath ''frames'') [30 ..< 60]),
     (2, 60, 89, map (outpath ''frames'') [60 ..< 90]),
     (3, 90, 94, map (outpath ''frames'') [90 ..< 95])]"
    unfolding b' .
  have c95: "map (\<lambda>(k, s, e, ps). (k, s, e, length ps))
     (batches_of (read_and_write_batches (sample_capture 95) [] ''frames'' 30))
     = [(0, 0, 29, 30), (1, 30, 59, 30), (2, 60, 89, 30), (3, 90, 94, 5)]"
    using r' unfolding bs' by (simp add: batches_of_def)
  show ?thesis using h1 o90 o95 n90 n95 c90 c95 by (simp only: simp_thms)
qed

text \<open>
  Claim C8 as stated fails: for a source that could not be opened the extractor returns the
  empty batch list, the default frame rate 30 and zero for the other properties, and
  raises nothing.
\<close>

theorem unreadable_source_returns_empty_counterexample:
  "read_and_write_batches unopened_capture [] ''frames'' 30
     = Inr (([], 30, 0, 0, 0), [])"
  by (simp add: read_and_write_batches_def unopened_capture_def cap_get_def cap_readable_def
      reader_init_def py_int_def)

section \<open>Properties of the batch assembler and of the run\<close>

lemma digit_cases: "d < 10 \<Longrightarrow> d \<in> {0, 1, 2, 3, 4, 5, 6, 7, 8, 9::nat}"
  by auto

lemma digit_val_digit_char: "d < 10 \<Longrightarrow> digit_val (digit_char d) = d"
  by (drule digit_cases) (auto simp: digit_val_def digit_char_def)

lemma int_of_digits_snoc: "int_of_digits (s @ [c]) = 10 * int_of_digits s + digit_val c"
  by (simp add: int_of_digits_def)

lemma int_of_digits_str_nat: "int_of_digits (str_nat n) = n"
proof (induction n rule: str_nat.induct)
  case (1 n)
  show ?case
  proof (cases "n < 10")
    case True
    then show ?thesis
      by (subst str_nat.simps) (simp add: int_of_digits_def digit_val_digit_char)
  next
    case False
    with 1 have "int_of_digits (str_nat (n div 10)) = n div 10" by simp
    with False show ?thesis
      by (subst str_nat.simps) (simp add: int_of_digits_snoc digit_val_digit_char)
  qed
qed

lemma int_of_digits_zeros: "int_of_digits (replicate k (CHR ''0'') @ s) = int_of_digits s"
proof -
  have "foldl (\<lambda>acc c. 10 * acc + digit_val c) 0 (replicate k (CHR ''0'')) = 0"
    by (induction k) (simp_all add: digit_val_def)
  then show ?thesis by (simp add: int_of_digits_def)
qed

lemma int_of_digits_zfill: "int_of_digits (zfill w (str_nat n)) = n"
  by (simp add: zfill_def int_of_digits_zeros int_of_digits_str_nat)

lemma frame_name_inj: "frame_name i = frame_name j \<Longrightarrow> i = j"
proof -
  assume "frame_name i = frame_name j"
  then have "zfill 6 (str_nat i) = zfill 6 (str_nat j)"
    by (simp add: frame_name_def)
  then have "int_of_digits (zfill 6 (str_nat i)) = int_of_digits (zfill 6 (str_nat j))"
    by simp
  then show "i = j" by (simp only: int_of_digits_zfill)
qed

lemma dir_write_fresh:
  "name \<notin> set (map fst dir) \<Longrightarrow> dir_write name v dir = dir @ [(name, v)]"
  by (simp add: dir_write_def)

lemma copy_frames_spec:
  "seq_inv st \<Longrightarrow>
     seq_inv (copy_frames fs st) \<and>
     next_index (copy_frames fs st) = next_index st + length fs \<and>
     map snd (all_frames (copy_frames fs st)) = map snd (all_frames st) @ fs \<and>
     warnings (copy_frames fs st) = warnings st"
proof (induction fs arbitrary: st)
  case Nil
  then show ?case by simp
next
  case (Cons f fs)
  let ?n = "next_index st"
  let ?st1 = "st\<lparr>all_frames := dir_write (frame_name ?n) f (all_frames st), next_index := ?n + 1\<rparr>"
  have fresh: "frame_name ?n \<notin> set (map fst (all_frames st))"
  proof
    assume "frame_name ?n \<in> set (map fst (all_frames st))"
    then have "frame_name ?n \<in> set (map frame_name [0 ..< ?n])"
      using Cons.prems by (simp only: seq_inv_def)
    then have "frame_name ?n \<in> frame_name ` {0 ..< ?n}" by simp
    then obtain j where "j < ?n" "frame_name ?n = frame_name j" by auto
    then show False using frame_name_inj by blast
  qed
  have w: "all_frames ?st1 = all_frames st @ [(frame_name ?n, f)]"
    using dir_write_fresh [OF fresh] by simp
  have inv1: "seq_inv ?st1"
    using Cons.prems unfolding seq_inv_def w by simp
  from Cons.IH [OF inv1] w show ?case by simp
qed


lemma batch_loop_spec:
  "seq_inv st \<Longrightarrow> batch_loop t i bs st = Inr st' \<Longrightarrow>
     seq_inv st' \<and>
     next_index st' = next_index st + sum_list (map (\<lambda>b. length (batch_files t b)) bs) \<and>
     map snd (all_frames st') = map snd (all_frames st) @ concat (map (batch_files t) bs) \<and>
     warnings st' = warnings st @ batch_warnings t i bs"
proof (induction bs arbitrary: st i)
  case Nil
  then show ?case by simp
next
  case (Cons b bs)
  from Cons.prems(2) obtain files where pb: "process_batch t b = Inr files"
    by (cases "process_batch t b") simp_all
  have bf: "batch_files t b = files" using pb by (simp add: batch_files_def)
  define st1 where "st1 = copy_frames files st"
  define st2 where "st2 = (case publish_batch t i files of None \<Rightarrow> st1
     | Some e \<Rightarrow> st1\<lparr>warnings := warnings st1 @ [BatchAppendFailed i e]\<rparr>)"
  from copy_frames_spec [OF Cons.prems(1), of files]
  have c: "seq_inv st1" "next_index st1 = next_index st + length files"
    "map snd (all_frames st1) = map snd (all_frames st) @ files"
    "warnings st1 = warnings st"
    by (simp_all add: st1_def)
  have s2: "seq_inv st2" "next_index st2 = next_index st + length files"
    "map snd (all_frames st2) = map snd (all_frames st) @ files"
    "warnings st2 = warnings st @ (case publish_batch t i files of None \<Rightarrow> []
        | Some e \<Rightarrow> [BatchAppendFailed i e])"
    using c by (auto simp: st2_def seq_inv_def split: option.splits)
  have loop: "batch_loop t (Suc i) bs st2 = Inr st'"
    using Cons.prems(2) pb unfolding st2_def st1_def by (simp add: Let_def)
  from Cons.IH [OF s2(1) loop] s2 bf show ?case by simp
qed

lemma seq_inv_init: "seq_inv run_init"
  by (simp add: seq_inv_def run_init_def)

lemma distinct_frame_names: "distinct (map frame_name [0 ..< n])"
  by (auto simp: distinct_map inj_on_def dest: frame_name_inj)

text \<open>
  Claim C1.  When the per-batch loop of \<^verbatim>\<open>main\<close> completes, the global frame directory
  holds as many files as the batches contributed frames, \<open>next_index\<close> is that number, the
  file names are \<open>frame_name 0, \<dots>, frame_name (total - 1)\<close> without gap or duplicate, and
  the contents are the batches' frames in order.
\<close>

theorem global_sequence_contiguous:
  assumes "batch_loop t 0 bs run_init = Inr st"
  shows "next_index st = sum_list (map (\<lambda>b. length (batch_files t b)) bs) \<and>
         length (all_frames st) = next_index st \<and>
         map fst (all_frames st) = map frame_name [0 ..< next_index st] \<and>
         distinct (map fst (all_frames st)) \<and>
         map snd (all_frames st) = concat (map (batch_files t) bs)"
proof -
  from batch_loop_spec [OF seq_inv_init assms]
  have inv: "seq_inv st"
    and n: "next_index st = sum_list (map (\<lambda>b. length (batch_files t b)) bs)"
    and c: "map snd (all_frames st) = concat (map (batch_files t) bs)"
    by (simp_all add: run_init_def)
  from inv have names: "map fst (all_frames st) = map frame_name [0 ..< next_index st]"
    by (simp add: seq_inv_def)
  then have "length (map fst (all_frames st)) = length (map frame_name [0 ..< next_index st])"
    by (simp only:)
  then have len: "length (all_frames st) = next_index st" by simp
  have "distinct (map fst (all_frames st))"
    unfolding names by (rule distinct_frame_names)
  with n len names c show ?thesis by simp
qed


text \<open>The theorem on two batches of two frames and one frame.\<close>

theorem global_sequence_contiguous_witness:
  "batch_loop ok_tools 0 [(0, 0, 1, [''a'', ''bb'']), (1, 2, 2, [''ccc''])] run_init
     = Inr \<lparr>all_frames = [(''frame_000000.png'', 1), (''frame_000001.png'', 2),
                            (''frame_000002.png'', 3)],
            next_index = 3, warnings = []\<rparr> \<and>
   (3::nat) = sum_list (map (\<lambda>b. length (batch_files ok_tools b))
                  [(0, 0, 1, [''a'', ''bb'']), (1, 2, 2, [''ccc''])]) \<and>
   [''frame_000000.png'', ''frame_000001.png'', ''frame_000002.png'']
     = map frame_name [0 ..< 3] \<and>
   [1, 2, 3] = concat (map (batch_files ok_tools) [(0, 0, 1, [''a'', ''bb'']), (1, 2, 2, [''ccc''])])"
proof -
  have h: "batch_loop ok_tools 0 [(0, 0, 1, [''a'', ''bb'']), (1, 2, 2, [''ccc''])] run_init
     = Inr \<lparr>all_frames = [(''frame_000000.png'', 1), (''frame_000001.png'', 2),
                            (''frame_000002.png'', 3)],
            next_index = 3, warnings = []\<rparr>"
    by code_simp
  from global_sequence_contiguous [OF h] h show ?thesis by simp
qed

lemma batch_loop_total:
  "\<forall>b \<in> set bs. \<exists>fs. process_batch t b = Inr fs \<Longrightarrow> \<exists>st'. batch_loop t i bs st = Inr st'"
proof (induction bs arbitrary: i st)
  case Nil
  then show ?case by simp
next
  case (Cons b bs)
  then obtain fs where "process_batch t b = Inr fs" by auto
  moreover from Cons have "\<And>i st. \<exists>st'. batch_loop t i bs st = Inr st'" by simp
  ultimately show ?case by (simp add: Let_def)
qed

lemma batch_warnings_mem:
  "k < length bs \<Longrightarrow> publish_batch t (i + k) (batch_files t (bs ! k)) = Some e \<Longrightarrow>
     BatchAppendFailed (i + k) e \<in> set (batch_warnings t i bs)"
proof (induction bs arbitrary: i k)
  case Nil
  then show ?case by simp
next
  case (Cons b bs)
  show ?case
  proof (cases k)
    case 0
    with Cons.prems show ?thesis by simp
  next
    case (Suc k')
    with Cons.prems have "k' < length bs"
      "publish_batch t (Suc i + k') (batch_files t (bs ! k')) = Some e" by simp_all
    from Cons.IH [OF this] Suc show ?thesis by simp
  qed
qed

lemma finalize_ok:
  assumes "all_frames st \<noteq> []" "encode_final t = None" "add_audio \<longrightarrow> mux_audio t = None"
    "publish_stream t = None" "inject_metadata t = None"
  shows "finalize t add_audio st =
     Inr (case publish_final_hls t of None \<Rightarrow> st
          | Some e \<Rightarrow> st\<lparr>warnings := warnings st @ [FinalHlsFailed e]\<rparr>)"
  using assms by (simp add: finalize_def frames_to_segment_def split: option.splits)

lemma finalize_stream_fails:
  assumes "all_frames st \<noteq> []" "encode_final t = None" "add_audio \<longrightarrow> mux_audio t = None"
    "publish_stream t = Some e"
  shows "finalize t add_audio st = Inl e"
  using assms by (simp add: finalize_def frames_to_segment_def)

lemma finalize_inject_fails:
  assumes "all_frames st \<noteq> []" "encode_final t = None" "add_audio \<longrightarrow> mux_audio t = None"
    "publish_stream t = None" "inject_metadata t = Some e"
  shows "finalize t add_audio st = Inl e"
  using assms by (simp add: finalize_def frames_to_segment_def)

text \<open>
  Claim C6, amended.  When the per-batch pipeline, the final encode and the audio mux
  succeed, a failure of an incremental append never ends the run: it is logged and every
  batch is still assembled.  A failure of the final HLS step (after the metadata
  injection) is logged in the same way and the run returns normally.  A failure of the
  append of the full video to the stream directory, or of the metadata injection,
  leaves \<^verbatim>\<open>main\<close> as the exception raised.
\<close>

theorem main_failure_policy:
  assumes rd: "bs = batches_of (read_and_write_batches cap store d B)"
    and pre: "load_model t = None" "add_audio \<longrightarrow> extract_audio t = None"
    and pb: "\<forall>b \<in> set bs. \<exists>fs. process_batch t b = Inr fs"
    and ne: "\<exists>b \<in> set bs. batch_files t b \<noteq> []"
    and enc: "encode_final t = None" "add_audio \<longrightarrow> mux_audio t = None"
  shows "(publish_stream t = None \<and> inject_metadata t = None \<longrightarrow>
            (\<exists>st. main t cap store d B add_audio = Inr st \<and>
               map snd (all_frames st) = concat (map (batch_files t) bs) \<and>
               (\<forall>k e. k < length bs \<and> publish_batch t k (batch_files t (bs ! k)) = Some e
                   \<longrightarrow> BatchAppendFailed k e \<in> set (warnings st)) \<and>
               (\<forall>e. publish_final_hls t = Some e \<longrightarrow> FinalHlsFailed e \<in> set (warnings st)))) \<and>
         (\<forall>e. publish_stream t = Some e \<longrightarrow> main t cap store d B add_audio = Inl e) \<and>
         (\<forall>e. publish_stream t = None \<and> inject_metadata t = Some e
            \<longrightarrow> main t cap store d B add_audio = Inl e)"
proof -
  from batch_loop_total [OF pb] obtain st where loop: "batch_loop t 0 bs run_init = Inr st"
    by blast
  from batch_loop_spec [OF seq_inv_init loop]
  have c: "map snd (all_frames st) = concat (map (batch_files t) bs)"
    and w: "warnings st = batch_warnings t 0 bs"
    by (simp_all add: run_init_def)
  from ne have "concat (map (batch_files t) bs) \<noteq> []" by auto
  with c have nonempty: "all_frames st \<noteq> []" by auto
  obtain bs0 meta store' where
    rw: "read_and_write_batches cap store d B = Inr ((bs0, meta), store')"
    by (simp add: read_and_write_batches_def Let_def)
  with rd have "bs0 = bs" by (simp add: batches_of_def)
  with rw have m: "main t cap store d B add_audio = finalize t add_audio st"
    using pre loop by (simp add: main_def)
  have bw: "BatchAppendFailed k e \<in> set (warnings st)"
    if "k < length bs" "publish_batch t k (batch_files t (bs ! k)) = Some e" for k e
    using batch_warnings_mem [of k bs t 0 e] that w by simp
  have p1: "\<exists>st. main t cap store d B add_audio = Inr st \<and>
               map snd (all_frames st) = concat (map (batch_files t) bs) \<and>
               (\<forall>k e. k < length bs \<and> publish_batch t k (batch_files t (bs ! k)) = Some e
                   \<longrightarrow> BatchAppendFailed k e \<in> set (warnings st)) \<and>
               (\<forall>e. publish_final_hls t = Some e \<longrightarrow> FinalHlsFailed e \<in> set (warnings st))"
    if ok: "publish_stream t = None" "inject_metadata t = None"
  proof (cases "publish_final_hls t")
    case None
    with finalize_ok [OF nonempty enc ok] m c bw show ?thesis by auto
  next
    case (Some e)
    with finalize_ok [OF nonempty enc ok] m c bw show ?thesis by auto
  qed
  have p2: "main t cap store d B add_audio = Inl e" if "publish_stream t = Some e" for e
    using finalize_stream_fails [OF nonempty enc that] m by simp
  have p3: "main t cap store d B add_audio = Inl e"
    if "publish_stream t = None" "inject_metadata t = Some e" for e
    using finalize_inject_fails [OF nonempty enc that] m by simp
  from p1 p2 p3 show ?thesis by blast
qed

text \<open>
  Claim C6 as stated fails: when only the final HLS step raises, \<^verbatim>\<open>main\<close> returns
  normally with a warning; the exception does not reach the caller.
\<close>

theorem final_hls_failure_swallowed_counterexample:
  "main (ok_tools\<lparr>publish_final_hls := Some CalledProcessError\<rparr>)
        (sample_capture 3) [] ''frames'' 2 True
     = Inr \<lparr>all_frames = [(''frame_000000.png'', 23), (''frame_000001.png'', 23),
                            (''frame_000002.png'', 23)],
            next_index = 3, warnings = [FinalHlsFailed CalledProcessError]\<rparr>"
  by code_simp


text \<open>
  The theorem on three frames in two batches, where the append of the second batch and the
  final HLS step fail.
\<close>

theorem main_failure_policy_witness:
  "[(0, 0, 1, [''frames/frame_000000.png'', ''frames/frame_000001.png'']),
    (1, 2, 2, [''frames/frame_000002.png''])]
     = batches_of (read_and_write_batches (sample_capture 3) [] ''frames'' 2) \<and>
   load_model flaky_tools = None \<and> extract_audio flaky_tools = None \<and>
   encode_final flaky_tools = None \<and> mux_audio flaky_tools = None \<and>
   publish_stream flaky_tools = None \<and> inject_metadata flaky_tools = None \<and>
   publish_final_hls flaky_tools = Some CalledProcessError \<and>
   (\<exists>st. main flaky_tools (sample_capture 3) [] ''frames'' 2 True = Inr st \<and>
      BatchAppendFailed 1 CalledProcessError \<in> set (warnings st) \<and>
      FinalHlsFailed CalledProcessError \<in> set (warnings st))"
proof -
  let ?bs = "[(0, 0, 1, [''frames/frame_000000.png'', ''frames/frame_000001.png'']),
    (1, 2, 2, [''frames/frame_000002.png''])] :: batch list"
  have rd: "?bs = batches_of (read_and_write_batches (sample_capture 3) [] ''frames'' 2)"
    by code_simp
  have pre: "load_model flaky_tools = None" "True \<longrightarrow> extract_audio flaky_tools = None"
    by (simp_all add: flaky_tools_def ok_tools_def)
  have pb: "\<forall>b \<in> set ?bs. \<exists>fs. process_batch flaky_tools b = Inr fs"
    by (simp add: flaky_tools_def ok_tools_def)
  have ne: "\<exists>b \<in> set ?bs. batch_files flaky_tools b \<noteq> []"
    by (simp add: flaky_tools_def ok_tools_def batch_files_def)
  have enc: "encode_final flaky_tools = None" "True \<longrightarrow> mux_audio flaky_tools = None"
    by (simp_all add: flaky_tools_def ok_tools_def)
  have fin: "publish_stream flaky_tools = None" "inject_metadata flaky_tools = None"
    "publish_final_hls flaky_tools = Some CalledProcessError"
    by (simp_all add: flaky_tools_def ok_tools_def)
  have pub: "(1::nat) < length ?bs"
    "publish_batch flaky_tools 1 (batch_files flaky_tools (?bs ! 1)) = Some CalledProcessError"
    by (simp_all add: flaky_tools_def ok_tools_def publish_batch_def batch_files_def
        frames_to_segment_def)
  from main_failure_policy [OF rd pre pb ne enc] fin
  obtain st where st: "main flaky_tools (sample_capture 3) [] ''frames'' 2 True = Inr st"
    and w1: "\<forall>k e. k < length ?bs \<and> publish_batch flaky_tools k (batch_files flaky_tools (?bs ! k)) = Some e
                   \<longrightarrow> BatchAppendFailed k e \<in> set (warnings st)"
    and w2: "\<forall>e. publish_final_hls flaky_tools = Some e \<longrightarrow> FinalHlsFailed e \<in> set (warnings st)"
    by blast
  from w1 pub have "BatchAppendFailed 1 CalledProcessError \<in> set (warnings st)" by blast
  moreover from w2 fin have "FinalHlsFailed CalledProcessError \<in> set (warnings st)" by blast
  ultimately show ?thesis using st rd pre enc fin by blast
qed

text \<open>
  Claim C8, amended.  For a source that cannot be opened or decodes no frame, the
  extractor raises nothing and returns an empty batch list as a success value.  The run
  processes no batch and never completes: when model loading and audio extraction
  return, it ends with the \<^verbatim>\<open>ValueError\<close> of the final encode, which finds no frame.
\<close>

theorem unreadable_source_not_rejected:
  assumes "\<not> cap_opened cap \<or> cap_frames cap = []"
  shows "(\<exists>meta. read_and_write_batches cap store d B = Inr (([], meta), store)) \<and>
         (\<exists>e. main t cap store d B add_audio = Inl e) \<and>
         (load_model t = None \<and> (add_audio \<longrightarrow> extract_audio t = None)
            \<longrightarrow> main t cap store d B add_audio = Inl ValueError)"
proof -
  from assms have r: "cap_readable cap = []" by (auto simp: cap_readable_def)
  then obtain meta where rd: "read_and_write_batches cap store d B = Inr (([], meta), store)"
    by (simp add: read_and_write_batches_def reader_init_def Let_def)
  have f: "finalize t add_audio run_init = Inl ValueError"
    by (simp add: finalize_def frames_to_segment_def run_init_def)
  have "\<exists>e. main t cap store d B add_audio = Inl e"
    using rd f by (auto simp: main_def split: option.splits)
  moreover have "main t cap store d B add_audio = Inl ValueError"
    if "load_model t = None" "add_audio \<longrightarrow> extract_audio t = None"
    using rd f that by (auto simp: main_def)
  ultimately show ?thesis using rd by blast
qed

text \<open>The theorem on a source that could not be opened.\<close>

theorem unreadable_source_not_rejected_witness:
  "cap_frames unopened_capture = [] \<and>
   batches_of (read_and_write_batches unopened_capture [] ''frames'' 30) = [] \<and>
   main ok_tools unopened_capture [] ''frames'' 30 True = Inl ValueError"
proof -
  have h: "\<not> cap_opened unopened_capture \<or> cap_frames unopened_capture = []"
    by (simp add: unopened_capture_def)
  have t: "load_model ok_tools = None \<and> (True \<longrightarrow> extract_audio ok_tools = None)"
    by (simp add: ok_tools_def)
  from unreadable_source_not_rejected [OF h, of "[]" "''frames''" 30 ok_tools True] t
  show ?thesis by (auto simp: batches_of_def unopened_capture_def)
qed

section \<open>Properties of the stream publisher\<close>

lemma finite_segment_numbers: "finite (segment_numbers names)"
proof -
  have "segment_numbers names \<subseteq> the ` match_segment ` set names"
    by (force simp: segment_numbers_def)
  then show ?thesis by (rule finite_subset) simp
qed

lemma segment_numbers_Cons:
  "segment_numbers (name # names) =
     (case match_segment name of None \<Rightarrow> {} | Some i \<Rightarrow> {i}) \<union> segment_numbers names"
  by (auto simp: segment_numbers_def split: option.splits)

lemma Max_insert_max:
  "finite S \<Longrightarrow> Max (insert (max a b) S) = Max (insert a (insert b S))"
  by (cases "S = {}") (simp_all add: max.assoc)

lemma scan_fold:
  "foldl scan_name m names = Max (insert m (int ` segment_numbers names))"
proof (induction names arbitrary: m)
  case Nil
  then show ?case by (simp add: segment_numbers_def)
next
  case (Cons name names)
  have fin: "finite (int ` segment_numbers names)" by (simp add: finite_segment_numbers)
  show ?case
  proof (cases "match_segment name")
    case None
    then show ?thesis using Cons.IH [of m]
      by (simp add: scan_name_def segment_numbers_Cons)
  next
    case (Some i)
    have "scan_name m name = max m (int i)" using Some by (simp add: scan_name_def max_def)
    then have "foldl scan_name m (name # names)
        = Max (insert (max m (int i)) (int ` segment_numbers names))"
      using Cons.IH by simp
    also have "\<dots> = Max (insert m (insert (int i) (int ` segment_numbers names)))"
      using fin by (rule Max_insert_max)
    finally show ?thesis using Some by (simp add: segment_numbers_Cons)
  qed
qed

lemma next_segment_start_number_max:
  "next_segment_start_number (Some names) =
     (if segment_numbers names = {} then 0 else int (Max (segment_numbers names)) + 1)"
proof (cases "segment_numbers names = {}")
  case True
  then have "foldl scan_name (- 1) names = - 1" by (simp add: scan_fold)
  then show ?thesis using True by (simp add: next_segment_start_number_def)
next
  case False
  let ?S = "segment_numbers names"
  have fin: "finite ?S" by (rule finite_segment_numbers)
  have fin': "finite (int ` ?S)" and ne': "int ` ?S \<noteq> {}" using fin False by simp_all
  have m: "Max (int ` ?S) = int (Max ?S)"
    by (rule mono_Max_commute [symmetric]) (simp_all add: mono_def fin False)
  have "Max (insert (- 1) (int ` ?S)) = max (- 1) (Max (int ` ?S))"
    by (rule Max_insert [OF fin' ne'])
  also have "\<dots> = int (Max ?S)" unfolding m by simp
  finally have "foldl scan_name (- 1) names = int (Max ?S)" by (simp only: scan_fold)
  then show ?thesis using False by (simp add: next_segment_start_number_def)
qed


lemma digit_char_is_digit: "d < 10 \<Longrightarrow> is_digit (digit_char d)"
proof -
  assume "d < 10"
  then have "d \<in> {0, 1, 2, 3, 4, 5, 6, 7, 8, 9::nat}" by auto
  then show ?thesis by (auto simp: is_digit_def digit_char_def)
qed

lemma str_nat_digits: "list_all is_digit (str_nat n)"
proof (induction n rule: str_nat.induct)
  case (1 n)
  show ?case
  proof (cases "n < 10")
    case True
    then show ?thesis by (subst str_nat.simps) (simp add: digit_char_is_digit)
  next
    case False
    with 1 have "list_all is_digit (str_nat (n div 10))" by simp
    with False show ?thesis by (subst str_nat.simps) (simp add: digit_char_is_digit)
  qed
qed

lemma length_str_nat: "n < 10 ^ Suc k \<Longrightarrow> length (str_nat n) \<le> Suc k"
proof (induction k arbitrary: n)
  case 0
  then show ?case by (subst str_nat.simps) simp
next
  case (Suc k)
  show ?case
  proof (cases "n < 10")
    case True
    then show ?thesis by (subst str_nat.simps) simp
  next
    case False
    from Suc.prems have "n div 10 < 10 ^ Suc k" by (simp add: div_less_iff_less_mult mult.commute)
    from Suc.IH [OF this] False show ?thesis by (subst str_nat.simps) simp
  qed
qed

lemma zfill5:
  assumes "i < 100000"
  shows "length (zfill 5 (str_nat i)) = 5" "list_all is_digit (zfill 5 (str_nat i))"
proof -
  have "i < 10 ^ Suc 4" using assms by simp
  then have "length (str_nat i) \<le> 5" using length_str_nat [of i 4] by simp
  then show "length (zfill 5 (str_nat i)) = 5" by (simp add: zfill_def)
  have z: "is_digit (CHR ''0'')" by (simp add: is_digit_def)
  show "list_all is_digit (zfill 5 (str_nat i))"
    using str_nat_digits [of i] z by (auto simp: zfill_def list_all_iff)
qed


lemma match_segment_name:
  assumes "i < 100000"
  shows "match_segment (segment_name i) = Some i"
proof -
  define Z where "Z = zfill 5 (str_nat i)"
  have len: "length Z = 5" and dig: "list_all is_digit Z"
    using zfill5 [OF assms] by (simp_all add: Z_def)
  have val: "int_of_digits Z = i"
    unfolding Z_def by (rule int_of_digits_zfill)
  have n: "segment_name i = ''segment_'' @ Z @ ''.ts''"
    by (simp add: segment_name_def Z_def)
  have t8: "take 8 (''segment_'' @ Z @ ''.ts'') = ''segment_''" by simp
  have d8: "drop 8 (''segment_'' @ Z @ ''.ts'') = Z @ ''.ts''" by simp
  have d13: "drop 13 (''segment_'' @ Z @ ''.ts'') = ''.ts''"
  proof -
    have "drop 13 (''segment_'' @ Z @ ''.ts'') = drop 5 (drop 8 (''segment_'' @ Z @ ''.ts''))"
      by (simp only: drop_drop) simp
    also have "\<dots> = ''.ts''" unfolding d8 using len by simp
    finally show ?thesis .
  qed
  have d16: "drop 16 (''segment_'' @ Z @ ''.ts'') = []"
  proof -
    have "drop 16 (''segment_'' @ Z @ ''.ts'') = drop 3 (drop 13 (''segment_'' @ Z @ ''.ts''))"
      by (simp only: drop_drop) simp
    also have "\<dots> = []" unfolding d13 by simp
    finally show ?thesis .
  qed
  have t5: "take 5 (Z @ ''.ts'') = Z" using len by simp
  show ?thesis
    unfolding n match_segment_def Let_def t8 d8 d13 d16 t5
    using len dig val by simp
qed

lemma segment_numbers_set:
  "set xs = set ys \<Longrightarrow> segment_numbers xs = segment_numbers ys"
  by (simp add: segment_numbers_def)

lemma segment_numbers_append:
  "segment_numbers (xs @ ys) = segment_numbers xs \<union> segment_numbers ys"
  by (auto simp: segment_numbers_def)

lemma segment_numbers_written:
  assumes "s + k \<le> 100000"
  shows "segment_numbers (map segment_name [s ..< s + k]) = {s ..< s + k}"
proof -
  have "match_segment (segment_name i) = Some i" if "i < s + k" for i
    using that assms by (intro match_segment_name) simp
  then show ?thesis by (force simp: segment_numbers_def)
qed

lemma segment_numbers_after_append:
  assumes "s + k \<le> 100000"
  shows "segment_numbers (remdups (names @ map segment_name [s ..< s + k] @ [''output.m3u8'']))
           = segment_numbers names \<union> {s ..< s + k}"
proof -
  have "segment_numbers (remdups (names @ map segment_name [s ..< s + k] @ [''output.m3u8'']))
      = segment_numbers (names @ map segment_name [s ..< s + k] @ [''output.m3u8''])"
    by (rule segment_numbers_set) simp
  also have "\<dots> = segment_numbers names \<union> segment_numbers (map segment_name [s ..< s + k])
      \<union> segment_numbers [''output.m3u8'']"
    by (simp add: segment_numbers_append Un_assoc)
  also have "segment_numbers [''output.m3u8''] = {}"
    by (simp add: segment_numbers_def match_segment_def Let_def)
  finally show ?thesis using segment_numbers_written [OF assms] by simp
qed

lemma start_above_all:
  "i \<in> segment_numbers names \<Longrightarrow> i < nat (next_segment_start_number (Some names))"
proof -
  assume i: "i \<in> segment_numbers names"
  then have "i \<le> Max (segment_numbers names)"
    by (intro Max_ge finite_segment_numbers)
  moreover have "segment_numbers names \<noteq> {}" using i by auto
  ultimately show ?thesis by (simp add: next_segment_start_number_max nat_add_distrib)
qed

lemma start_of_union:
  fixes S :: "nat set"
  assumes "finite S" "\<forall>i \<in> S. i < s" "s = (if S = {} then 0 else Max S + 1)"
  shows "(if S \<union> {s ..< s + k} = {} then 0 else Max (S \<union> {s ..< s + k}) + 1) = s + k"
proof (cases "k = 0")
  case True
  then have e: "S \<union> {s ..< s + k} = S" by simp
  show ?thesis unfolding e using assms(3) [symmetric] True by simp
next
  case False
  have fin: "finite (S \<union> {s ..< s + k})" using assms(1) by simp
  have mem: "s + k - 1 \<in> S \<union> {s ..< s + k}" using False by auto
  have "Max (S \<union> {s ..< s + k}) = s + k - 1"
  proof (rule Max_eqI [OF fin _ mem])
    fix y assume "y \<in> S \<union> {s ..< s + k}"
    then show "y \<le> s + k - 1" using assms(2) False by auto
  qed
  then show ?thesis using mem False by auto
qed

lemma next_start_after_append:
  assumes "nat (next_segment_start_number (Some names)) + k \<le> 100000"
  shows "nat (next_segment_start_number (Some (snd (add_batch_to_hls k (Some names)))))
           = nat (next_segment_start_number (Some names)) + k"
proof -
  define s where "s = nat (next_segment_start_number (Some names))"
  define S where "S = segment_numbers names"
  define names' where "names' = snd (add_batch_to_hls k (Some names))"
  have s: "s = (if S = {} then 0 else Max S + 1)"
    by (simp add: s_def S_def next_segment_start_number_max nat_add_distrib)
  have sk: "s + k \<le> 100000" using assms by (simp add: s_def)
  have "names' = remdups (names @ map segment_name [s ..< s + k] @ [''output.m3u8''])"
    by (simp add: names'_def add_batch_to_hls_def Let_def s_def)
  then have sn: "segment_numbers names' = S \<union> {s ..< s + k}"
    using segment_numbers_after_append [OF sk, of names] by (simp add: S_def)
  have above: "\<forall>i \<in> S. i < s" using start_above_all by (simp add: S_def s_def)
  have fin: "finite S" by (simp add: S_def finite_segment_numbers)
  have "nat (next_segment_start_number (Some names'))
      = (if S \<union> {s ..< s + k} = {} then 0 else Max (S \<union> {s ..< s + k}) + 1)"
    unfolding next_segment_start_number_max sn by (simp add: nat_add_distrib)
  also have "\<dots> = s + k"
    by (rule start_of_union [OF fin above s])
  finally show ?thesis by (simp add: names'_def s_def)
qed

lemma append_calls_consecutive:
  assumes "nat (next_segment_start_number (Some names)) + sum_list ks \<le> 100000"
  shows "append_calls ks (Some names)
           = [nat (next_segment_start_number (Some names)) ..<
              nat (next_segment_start_number (Some names)) + sum_list ks]"
  using assms
proof (induction ks arbitrary: names)
  case Nil
  then show ?case by simp
next
  case (Cons k ks)
  let ?s = "nat (next_segment_start_number (Some names))"
  let ?names' = "snd (add_batch_to_hls k (Some names))"
  have w: "fst (add_batch_to_hls k (Some names)) = [?s ..< ?s + k]"
    by (simp add: add_batch_to_hls_def Let_def)
  from Cons.prems have k: "?s + k \<le> 100000" by simp
  have s': "nat (next_segment_start_number (Some ?names')) = ?s + k"
    by (rule next_start_after_append [OF k])
  have "nat (next_segment_start_number (Some ?names')) + sum_list ks \<le> 100000"
    using Cons.prems s' by simp
  from Cons.IH [OF this] have rest: "append_calls ks (Some ?names')
      = [?s + k ..< ?s + k + sum_list ks]"
    unfolding s' .
  have "append_calls (k # ks) (Some names) = [?s ..< ?s + k] @ [?s + k ..< ?s + k + sum_list ks]"
    using w rest by (simp add: case_prod_unfold)
  also have "\<dots> = [?s ..< ?s + (k + sum_list ks)]"
    using upt_add_eq_append [of ?s "?s + k" "sum_list ks"] by (simp add: add.assoc)
  finally show ?case by simp
qed

lemma match_99999: "match_segment ''segment_99999.ts'' = Some 99999"
  by (simp add: match_segment_def Let_def is_digit_def int_of_digits_def digit_val_def)

lemma match_100000: "match_segment ''segment_100000.ts'' = None"
  by (simp add: match_segment_def Let_def)

lemma match_playlist: "match_segment ''output.m3u8'' = None"
  by (simp add: match_segment_def Let_def)

lemma segment_name_100000: "segment_name 100000 = ''segment_100000.ts''"
  by (simp add: segment_name_def zfill_def str_nat.simps digit_char_def)

lemma start_after_99999: "next_segment_start_number (Some [''segment_99999.ts'']) = 100000"
  by (simp add: next_segment_start_number_def scan_name_def match_99999)

lemma start_after_100000:
  "next_segment_start_number
     (Some [''segment_99999.ts'', ''segment_100000.ts'', ''output.m3u8'']) = 100000"
  by (simp add: next_segment_start_number_def scan_name_def match_99999 match_100000
      match_playlist)

lemma upt_100000: "[100000 ..< 100000 + 1] = [100000::nat]"
  by (simp add: upt_rec [of 100000])

lemma first_append_after_99999:
  "add_batch_to_hls 1 (Some [''segment_99999.ts''])
     = ([100000], [''segment_99999.ts'', ''segment_100000.ts'', ''output.m3u8''])"
  unfolding add_batch_to_hls_def Let_def option.case start_after_99999
  by (simp add: upt_100000 segment_name_100000)

lemma second_append_after_99999:
  "add_batch_to_hls 1 (Some [''segment_99999.ts'', ''segment_100000.ts'', ''output.m3u8''])
     = ([100000], [''segment_99999.ts'', ''segment_100000.ts'', ''output.m3u8''])"
  unfolding add_batch_to_hls_def Let_def option.case start_after_100000
  by (simp add: upt_100000 segment_name_100000)

text \<open>
  Claim C5 on the code: a stream directory that holds \<^verbatim>\<open>segment_99999.ts\<close>.  The first
  append chooses 100000 and the template writes \<^verbatim>\<open>segment_100000.ts\<close>, a name the scan's
  pattern of exactly five digits does not match; the second append chooses 100000 again.
\<close>

theorem segment_number_repeats_after_99999:
  "add_batch_to_hls 1 (Some [''segment_99999.ts''])
     = ([100000], [''segment_99999.ts'', ''segment_100000.ts'', ''output.m3u8'']) \<and>
   match_segment ''segment_100000.ts'' = None \<and>
   next_segment_start_number
     (Some [''segment_99999.ts'', ''segment_100000.ts'', ''output.m3u8'']) = 100000 \<and>
   append_calls [1, 1] (Some [''segment_99999.ts'']) = [100000, 100000]"
  by (simp add: first_append_after_99999 second_append_after_99999 match_100000
      start_after_100000 del: One_nat_def)

section \<open>Properties of the stereo synthesizer\<close>

lemma find_append_cases:
  "find P (xs @ ys) = (case find P xs of None \<Rightarrow> find P ys | Some x \<Rightarrow> Some x)"
  by (induction xs) auto

lemma np_set_ok: "0 \<le> i \<Longrightarrow> i < int (length xs) \<Longrightarrow> np_set xs i v = Inr (xs[nat i := v])"
  by (simp add: np_set_def Let_def)

lemma np_get_ok: "i < length xs \<Longrightarrow> np_get xs i = Inr (xs ! i)"
  by (simp add: np_get_def)

lemma left_col_range:
  "x < W \<Longrightarrow> 0 \<le> dx_row ! x \<Longrightarrow> 0 \<le> left_col W dx_row x \<and> left_col W dx_row x < int W"
  by (auto simp: left_col_def min_def)

lemma right_col_range:
  "x < W \<Longrightarrow> 0 \<le> dx_row ! x \<Longrightarrow> 0 \<le> right_col dx_row x \<and> right_col dx_row x < int W"
  by (auto simp: right_col_def max_def)

lemma scattered_step:
  assumes "0 \<le> col x" "c < length old"
  shows "scattered col frow (x # xs) old c = scattered col frow xs (old[nat (col x) := frow ! x]) c"
proof (cases "find (\<lambda>x. col x = int c) (rev xs)")
  case None
  have "(col x = int c) = (nat (col x) = c)" using assms(1) by auto
  with None assms(2) show ?thesis
    by (auto simp: scattered_def last_writer_def find_append_cases nth_list_update)
next
  case (Some a)
  then show ?thesis
    by (simp add: scattered_def last_writer_def find_append_cases)
qed

lemma scatter_row_ok:
  assumes "\<forall>x \<in> set xs. x < length dx_row \<and> x < W \<and> 0 \<le> dx_row ! x"
    and "length l = W" "length r = W"
  shows "scatter_row W frow dx_row xs (l, r) =
     Inr (map (scattered (left_col W dx_row) frow xs l) [0 ..< W],
          map (scattered (right_col dx_row) frow xs r) [0 ..< W])"
  using assms
proof (induction xs arbitrary: l r)
  case Nil
  then show ?case
    by (auto simp: scattered_def last_writer_def intro!: nth_equalityI)
next
  case (Cons x xs)
  from Cons.prems have x: "x < length dx_row" "x < W" "0 \<le> dx_row ! x" by simp_all
  let ?nl = "left_col W dx_row x" and ?nr = "right_col dx_row x"
  from left_col_range [OF x(2,3)] have nl: "0 \<le> ?nl" "?nl < int (length l)"
    using Cons.prems(2) by simp_all
  from right_col_range [OF x(2,3)] have nr: "0 \<le> ?nr" "?nr < int (length r)"
    using Cons.prems(3) by simp_all
  let ?l1 = "l[nat ?nl := frow ! x]" and ?r1 = "r[nat ?nr := frow ! x]"
  have step: "scatter_row W frow dx_row (x # xs) (l, r) = scatter_row W frow dx_row xs (?l1, ?r1)"
    using np_get_ok [OF x(1)] np_set_ok [OF nl] np_set_ok [OF nr]
    by (simp add: Let_def left_col_def right_col_def)
  have IH: "scatter_row W frow dx_row xs (?l1, ?r1) =
     Inr (map (scattered (left_col W dx_row) frow xs ?l1) [0 ..< W],
          map (scattered (right_col dx_row) frow xs ?r1) [0 ..< W])"
    using Cons.prems by (intro Cons.IH) simp_all
  have "map (scattered (left_col W dx_row) frow xs ?l1) [0 ..< W]
      = map (scattered (left_col W dx_row) frow (x # xs) l) [0 ..< W]"
    using scattered_step [of "left_col W dx_row" x _ l frow xs] nl(1) Cons.prems(2) by simp
  moreover have "map (scattered (right_col dx_row) frow xs ?r1) [0 ..< W]
      = map (scattered (right_col dx_row) frow (x # xs) r) [0 ..< W]"
    using scattered_step [of "right_col dx_row" x _ r frow xs] nr(1) Cons.prems(3) by simp
  ultimately show ?case using step IH by simp
qed


lemma scatter_row_err:
  assumes "\<exists>x \<in> set xs. length dx_row \<le> x" "\<forall>x \<in> set xs. x < W"
    and "\<forall>x < length dx_row. 0 \<le> dx_row ! x" "length l = W" "length r = W"
  shows "scatter_row W frow dx_row xs (l, r) = Inl IndexError"
  using assms
proof (induction xs arbitrary: l r)
  case Nil
  then show ?case by simp
next
  case (Cons x xs)
  show ?case
  proof (cases "x < length dx_row")
    case False
    then show ?thesis by (simp add: np_get_def)
  next
    case True
    with Cons.prems have x: "x < W" "0 \<le> dx_row ! x" by simp_all
    let ?nl = "left_col W dx_row x" and ?nr = "right_col dx_row x"
    from left_col_range [OF x] have nl: "0 \<le> ?nl" "?nl < int (length l)"
      using Cons.prems(4) by simp_all
    from right_col_range [OF x] have nr: "0 \<le> ?nr" "?nr < int (length r)"
      using Cons.prems(5) by simp_all
    let ?l1 = "l[nat ?nl := frow ! x]" and ?r1 = "r[nat ?nr := frow ! x]"
    have step: "scatter_row W frow dx_row (x # xs) (l, r) = scatter_row W frow dx_row xs (?l1, ?r1)"
      using np_get_ok [OF True] np_set_ok [OF nl] np_set_ok [OF nr]
      by (simp add: Let_def left_col_def right_col_def)
    from Cons.prems(1) True have bad: "\<exists>x \<in> set xs. length dx_row \<le> x" by auto
    have "scatter_row W frow dx_row xs (?l1, ?r1) = Inl IndexError"
      using bad Cons.prems by (intro Cons.IH) simp_all
    with step show ?thesis by simp
  qed
qed

lemma scatter_rows_ok:
  assumes "\<forall>i < length rows. row_fits W shift (y + i)"
    and "\<forall>j < length shift. \<forall>x < length (shift ! j). 0 \<le> shift ! j ! x"
  shows "scatter_rows W shift y rows =
     Inr (map (\<lambda>i. map (scattered (left_col W (shift ! (y + i))) (rows ! i) [0 ..< W]
                           (replicate W black)) [0 ..< W]) [0 ..< length rows],
          map (\<lambda>i. map (scattered (right_col (shift ! (y + i))) (rows ! i) [0 ..< W]
                           (replicate W black)) [0 ..< W]) [0 ..< length rows])"
  using assms
proof (induction rows arbitrary: y)
  case Nil
  then show ?case by simp
next
  case (Cons frow rest)
  from Cons.prems(1) have f0: "row_fits W shift y" by force
  then have y: "y < length shift" and wy: "W \<le> length (shift ! y)"
    by (simp_all add: row_fits_def)
  have nn: "\<forall>x \<in> set [0 ..< W]. x < length (shift ! y) \<and> x < W \<and> 0 \<le> shift ! y ! x"
    using Cons.prems(2) y wy by auto
  have row: "scatter_row W frow (shift ! y) [0 ..< W] (replicate W black, replicate W black) =
     Inr (map (scattered (left_col W (shift ! y)) frow [0 ..< W] (replicate W black)) [0 ..< W],
          map (scattered (right_col (shift ! y)) frow [0 ..< W] (replicate W black)) [0 ..< W])"
    by (rule scatter_row_ok [OF nn]) simp_all
  have "\<forall>i < length rest. row_fits W shift (Suc y + i)"
    using Cons.prems(1) by force
  from Cons.IH [OF this Cons.prems(2)] row np_get_ok [OF y]
  show ?case
    by (simp add: map_upt_Suc del: upt_Suc)
qed

lemma scatter_rows_err:
  assumes "\<exists>i < length rows. \<not> row_fits W shift (y + i)"
    and "\<forall>j < length shift. \<forall>x < length (shift ! j). 0 \<le> shift ! j ! x"
  shows "scatter_rows W shift y rows = Inl IndexError"
  using assms
proof (induction rows arbitrary: y)
  case Nil
  then show ?case by simp
next
  case (Cons frow rest)
  show ?case
  proof (cases "row_fits W shift y")
    case False
    show ?thesis
    proof (cases "y < length shift")
      case False
      then show ?thesis by (simp add: np_get_def)
    next
      case True
      with False have short: "length (shift ! y) < W" by (simp add: row_fits_def)
      have "scatter_row W frow (shift ! y) [0 ..< W] (replicate W black, replicate W black)
          = Inl IndexError"
      proof (rule scatter_row_err)
        show "\<exists>x \<in> set [0 ..< W]. length (shift ! y) \<le> x"
          using short by (intro bexI [of _ "length (shift ! y)"]) simp_all
        show "\<forall>x < length (shift ! y). 0 \<le> shift ! y ! x"
          using Cons.prems(2) True by simp
      qed simp_all
      with np_get_ok [OF True] show ?thesis by simp
    qed
  next
    case True
    then have y: "y < length shift" and wy: "W \<le> length (shift ! y)"
      by (simp_all add: row_fits_def)
    have nn: "\<forall>x \<in> set [0 ..< W]. x < length (shift ! y) \<and> x < W \<and> 0 \<le> shift ! y ! x"
      using Cons.prems(2) y wy by auto
    have row: "scatter_row W frow (shift ! y) [0 ..< W] (replicate W black, replicate W black) =
       Inr (map (scattered (left_col W (shift ! y)) frow [0 ..< W] (replicate W black)) [0 ..< W],
            map (scattered (right_col (shift ! y)) frow [0 ..< W] (replicate W black)) [0 ..< W])"
      by (rule scatter_row_ok [OF nn]) simp_all
    from Cons.prems(1) obtain i where i: "i < Suc (length rest)" "\<not> row_fits W shift (y + i)"
      by auto
    with True obtain i' where "i = Suc i'" by (cases i) auto
    with i have "\<exists>i < length rest. \<not> row_fits W shift (Suc y + i)" by auto
    from Cons.IH [OF this Cons.prems(2)] row np_get_ok [OF y]
    show ?thesis by simp
  qed
qed


subsection \<open>The \<^verbatim>\<open>float32\<close> rounding and the conversion to \<^verbatim>\<open>int32\<close>\<close>

lemma pow2_powi: "pow2 e = 2 powi e"
  by (simp add: pow2_def power_int_def field_simps)

lemma pow2_pos: "0 < pow2 e"
  by (simp add: pow2_powi)

lemma pow2_add: "pow2 (a + b) = pow2 a * pow2 b"
  by (simp add: pow2_powi power_int_add)

lemma pow2_nat: "pow2 (int n) = 2 ^ n"
  by (simp add: pow2_def)

lemma pow2_le_iff: "pow2 a \<le> pow2 b \<longleftrightarrow> a \<le> b"
proof
  assume le: "pow2 a \<le> pow2 b"
  show "a \<le> b"
  proof (rule ccontr)
    assume "\<not> a \<le> b"
    then have "b < a" by simp
    then have "(2::rat) powi b < 2 powi a" by (rule power_int_strict_increasing) simp
    with le show False by (simp add: pow2_powi)
  qed
next
  assume "a \<le> b"
  then have "(2::rat) powi a \<le> 2 powi b" by (rule power_int_increasing) simp
  then show "pow2 a \<le> pow2 b" by (simp add: pow2_powi)
qed

lemma rhe_of_int: "round_half_even (of_int n) = n"
  by (simp add: round_half_even_def Let_def)

lemma rhe_le: "x \<le> of_int N \<Longrightarrow> round_half_even x \<le> N"
proof -
  assume x: "x \<le> of_int N"
  then have f: "\<lfloor>x\<rfloor> \<le> N" by (simp add: floor_le_iff) 
  show ?thesis
  proof (cases "\<lfloor>x\<rfloor> = N")
    case True
    then have "of_int N \<le> x" by (metis of_int_floor_le)
    with x have "x = of_int N" by simp
    then show ?thesis by (simp add: rhe_of_int)
  next
    case False
    with f have "\<lfloor>x\<rfloor> + 1 \<le> N" by simp
    with f show ?thesis by (auto simp: round_half_even_def Let_def)
  qed
qed

lemma rhe_nonneg: "0 \<le> x \<Longrightarrow> 0 \<le> round_half_even x"
  by (auto simp: round_half_even_def Let_def)

lemma f32_zero: "f32 0 = 0"
  by (simp add: f32_def rhe_of_int [of 0, simplified])

lemma f32_ulp_pos: "0 < f32_ulp q"
  by (simp add: f32_ulp_def pow2_pos split: option.splits)

lemma f32_nonneg: "0 \<le> q \<Longrightarrow> 0 \<le> f32 q"
proof -
  assume "0 \<le> q"
  then have "0 \<le> q / f32_ulp q" using f32_ulp_pos [of q] by simp
  then have "0 \<le> round_half_even (q / f32_ulp q)" by (rule rhe_nonneg)
  then show ?thesis using f32_ulp_pos [of q] by (simp add: f32_def)
qed

lemma f32_exponent_le: "f32_exponent q = Some e \<Longrightarrow> pow2 e \<le> \<bar>q\<bar>"
  by (auto simp: f32_exponent_def find_Some_iff)

lemma f32_ulp_exp:
  "\<exists>u. f32_ulp q = pow2 u \<and> (\<forall>k. 0 \<le> k \<longrightarrow> \<bar>q\<bar> \<le> pow2 k \<longrightarrow> u \<le> k)"
proof (cases "f32_exponent q")
  case None
  then show ?thesis by (intro exI [of _ "- 149"]) (simp add: f32_ulp_def)
next
  case (Some e)
  have "e - 23 \<le> k" if "\<bar>q\<bar> \<le> pow2 k" for k
  proof -
    from f32_exponent_le [OF Some] that have "pow2 e \<le> pow2 k" by simp
    then show ?thesis by (simp add: pow2_le_iff)
  qed
  with Some show ?thesis by (intro exI [of _ "e - 23"]) (simp add: f32_ulp_def)
qed

lemma f32_le_pow2:
  assumes "q \<le> 2 ^ k"
  shows "f32 q \<le> 2 ^ k"
proof (cases "0 \<le> q")
  case False
  then have "q / f32_ulp q \<le> of_int 0" using f32_ulp_pos [of q] by (simp add: divide_le_0_iff)
  then have "round_half_even (q / f32_ulp q) \<le> 0" by (rule rhe_le)
  then have "f32 q \<le> 0" using f32_ulp_pos [of q]
    by (simp add: f32_def mult_le_0_iff)
  then show ?thesis by (rule order_trans) simp
next
  case True
  obtain u where u: "f32_ulp q = pow2 u"
    and uk: "\<forall>k. 0 \<le> k \<longrightarrow> \<bar>q\<bar> \<le> pow2 k \<longrightarrow> u \<le> k"
    using f32_ulp_exp by blast
  from True assms have "\<bar>q\<bar> \<le> pow2 (int k)" by (simp add: pow2_nat)
  with uk have le: "u \<le> int k" by simp
  define n where "n = nat (int k - u)"
  have k: "int k = u + int n" using le by (simp add: n_def)
  have p: "(2::rat) ^ k = pow2 u * 2 ^ n"
    using pow2_add [of u "int n"] k by (simp add: pow2_nat [symmetric])
  have "q / pow2 u \<le> 2 ^ n" using assms pow2_pos [of u] unfolding p
    by (simp add: field_simps)
  then have "q / pow2 u \<le> of_int (2 ^ n)" by simp
  then have "round_half_even (q / pow2 u) \<le> 2 ^ n" by (rule rhe_le)
  then have "(of_int (round_half_even (q / pow2 u)) :: rat) \<le> 2 ^ n"
    by (metis of_int_le_iff of_int_numeral of_int_power)
  then have "of_int (round_half_even (q / pow2 u)) * pow2 u \<le> 2 ^ n * pow2 u"
    using pow2_pos [of u] by simp
  then show ?thesis unfolding f32_def u p by (simp add: mult.commute)
qed

lemma f32_exponent_exists:
  assumes "1 \<le> \<bar>q\<bar>"
  shows "\<exists>e. f32_exponent q = Some e"
proof -
  have m: "(0::int) \<in> set (rev [- 126 .. 127])" by (simp only: set_rev set_upto) simp
  have p: "pow2 0 \<le> \<bar>q\<bar>" using assms by (simp add: pow2_def)
  have "find (\<lambda>e. pow2 e \<le> \<bar>q\<bar>) (rev [- 126 .. 127]) \<noteq> None"
    unfolding find_None_iff using m p by blast
  then show ?thesis unfolding f32_exponent_def by auto
qed

lemma int_quotient_small:
  assumes "e \<le> 23"
  shows "\<exists>n. (of_int i :: rat) / pow2 (e - 23) = of_int n"
proof -
  define m where "m = nat (23 - e)"
  have "e - 23 + int m = 0" using assms by (simp add: m_def)
  then have "pow2 (e - 23) * pow2 (int m) = pow2 0" by (simp only: pow2_add [symmetric])
  then have "pow2 (e - 23) * 2 ^ m = 1" by (simp add: pow2_nat pow2_def)
  then have "(of_int i :: rat) / pow2 (e - 23) = of_int i * 2 ^ m"
    using pow2_pos [of "e - 23"] by (simp add: field_simps)
  also have "\<dots> = of_int (i * 2 ^ m)" by simp
  finally show ?thesis by blast
qed

lemma int_quotient_top:
  assumes "\<bar>i\<bar> = 2 ^ 24"
  shows "\<exists>n. (of_int i :: rat) / pow2 (24 - 23) = of_int n"
proof -
  have p: "pow2 (24 - 23) = 2" by (simp add: pow2_def)
  from assms have "even i" by (metis even_abs_add_iff even_add even_numeral even_power zero_less_numeral)
  then obtain n where "i = 2 * n" by (rule evenE)
  then have "(of_int i :: rat) / 2 = of_int n" by simp
  then show ?thesis unfolding p by blast
qed

lemma f32_of_int:
  assumes "\<bar>i\<bar> \<le> 2 ^ 24"
  shows "f32 (of_int i) = of_int i"
proof (cases "i = 0")
  case True
  then show ?thesis by (simp add: f32_zero)
next
  case False
  then have "1 \<le> \<bar>i\<bar>" by simp
  then have one: "(1::rat) \<le> \<bar>of_int i\<bar>" by (metis of_int_1_le_iff of_int_abs)
  from f32_exponent_exists [OF one] obtain e where e: "f32_exponent (of_int i) = Some e" by blast
  have lo: "pow2 e \<le> \<bar>of_int i :: rat\<bar>" by (rule f32_exponent_le [OF e])
  have hi: "\<bar>of_int i :: rat\<bar> \<le> pow2 24"
  proof -
    have "(of_int \<bar>i\<bar> :: rat) \<le> of_int (2 ^ 24)" using assms by (simp only: of_int_le_iff)
    then show ?thesis by (simp add: pow2_def)
  qed
  from lo hi have "pow2 e \<le> pow2 24" by (rule order_trans)
  then have e24: "e \<le> 24" by (simp only: pow2_le_iff)
  have ulp: "f32_ulp (of_int i) = pow2 (e - 23)" using e by (simp add: f32_ulp_def)
  have "\<exists>n. (of_int i :: rat) / pow2 (e - 23) = of_int n"
  proof (cases "e \<le> 23")
    case True
    then show ?thesis by (rule int_quotient_small)
  next
    case False
    with e24 have e': "e = 24" by simp
    have "pow2 24 \<le> \<bar>of_int i :: rat\<bar>" using lo unfolding e' .
    with hi have "\<bar>of_int i :: rat\<bar> = pow2 24" by simp
    then have "(of_int \<bar>i\<bar> :: rat) = of_int (2 ^ 24)" by (simp add: pow2_def)
    then have "\<bar>i\<bar> = 2 ^ 24" by (simp only: of_int_eq_iff)
    then show ?thesis unfolding e' by (rule int_quotient_top)
  qed
  then obtain n where n: "(of_int i :: rat) / pow2 (e - 23) = of_int n" by blast
  then have "of_int n * pow2 (e - 23) = (of_int i :: rat)"
    using pow2_pos [of "e - 23"] by (simp add: field_simps)
  then show ?thesis unfolding f32_def ulp n rhe_of_int by simp
qed


lemma find_rev_upto:
  "i \<le> e \<Longrightarrow> e \<le> j \<Longrightarrow> P e \<Longrightarrow> (\<forall>e'. e < e' \<and> e' \<le> j \<longrightarrow> \<not> P e') \<Longrightarrow>
     find P (rev [i .. j]) = Some e"
proof (induction "nat (j - e)" arbitrary: j)
  case 0
  then have j: "j = e" by simp
  have "[i .. e] = [i .. e - 1] @ [e]" using 0(2) by (rule upto_rec2)
  then show ?case using 0(4) j by simp
next
  case (Suc n)
  then have lt: "e < j" by simp
  have u: "[i .. j] = [i .. j - 1] @ [j]" using Suc(3,4) by (intro upto_rec2) simp
  have nj: "\<not> P j" using Suc(6) lt by simp
  have "find P (rev [i .. j - 1]) = Some e"
    using Suc(2-6) lt by (intro Suc(1)) auto
  then show ?case unfolding u using nj by simp
qed

lemma f32_exponentI:
  assumes "- 126 \<le> e" "e \<le> 127" "pow2 e \<le> \<bar>q\<bar>" "\<bar>q\<bar> < pow2 (e + 1)"
  shows "f32_exponent q = Some e"
proof -
  have "\<forall>e'. e < e' \<and> e' \<le> 127 \<longrightarrow> \<not> pow2 e' \<le> \<bar>q\<bar>"
  proof (intro allI impI)
    fix e' assume "e < e' \<and> e' \<le> 127"
    then have "e + 1 \<le> e'" by simp
    then have "pow2 (e + 1) \<le> pow2 e'" by (simp only: pow2_le_iff)
    with assms(4) show "\<not> pow2 e' \<le> \<bar>q\<bar>" by simp
  qed
  with assms(1,2,3) show ?thesis
    unfolding f32_exponent_def
    by (intro find_rev_upto [where P = "\<lambda>e. pow2 e \<le> \<bar>q\<bar>"]) simp_all
qed

lemma rhe_nearest:
  assumes "of_int n - 1 / 2 < x" "x < of_int n + 1 / 2"
  shows "round_half_even x = n"
proof -
  have f1: "of_int \<lfloor>x\<rfloor> \<le> x" and f2: "x < of_int \<lfloor>x\<rfloor> + 1" by linarith+
  from f1 assms(2) have "(of_int \<lfloor>x\<rfloor> :: rat) < of_int n + 1" by linarith
  then have "(of_int \<lfloor>x\<rfloor> :: rat) < of_int (n + 1)" by simp
  then have le: "\<lfloor>x\<rfloor> < n + 1" by (simp only: of_int_less_iff)
  from f2 assms(1) have "(of_int n :: rat) - 1 < of_int \<lfloor>x\<rfloor> + 1" by linarith
  then have "(of_int (n - 1) :: rat) < of_int (\<lfloor>x\<rfloor> + 1)" by simp
  then have ge: "n - 1 < \<lfloor>x\<rfloor> + 1" by (simp only: of_int_less_iff)
  from le ge consider "\<lfloor>x\<rfloor> = n" | "\<lfloor>x\<rfloor> = n - 1" by linarith
  then show ?thesis
  proof cases
    case 1
    with assms(2) have "x - of_int \<lfloor>x\<rfloor> < 1 / 2" by simp
    with 1 show ?thesis by (simp add: round_half_even_def Let_def)
  next
    case 2
    with assms(1) have "1 / 2 < x - of_int \<lfloor>x\<rfloor>" by simp
    with 2 show ?thesis by (simp add: round_half_even_def Let_def)
  qed
qed

lemma f32_evalI:
  assumes "- 126 \<le> e" "e \<le> 127" "pow2 e \<le> \<bar>q\<bar>" "\<bar>q\<bar> < pow2 (e + 1)"
    and "of_int n - 1 / 2 < q / pow2 (e - 23)" "q / pow2 (e - 23) < of_int n + 1 / 2"
  shows "f32 q = of_int n * pow2 (e - 23)"
  using f32_exponentI [OF assms(1-4)] rhe_nearest [OF assms(5,6)]
  by (simp add: f32_def f32_ulp_def)

text \<open>
  A check of the rounding on values that are not whole numbers: grey level 204 and
  \<open>max_shift = 20\<close>.  In exact arithmetic \<open>(1 - 204 / 255) * 20 = 4\<close>; in \<^verbatim>\<open>float32\<close> the
  depth is rounded up, the product is just below 4 and the shift is 3.
\<close>

lemma f32_four_fifths: "f32 (4 / 5) = 13421773 / 16777216"
  using f32_evalI [of "- 1" "4 / 5" 13421773] by (simp add: pow2_def)

lemma f32_one_fifth: "f32 (1 - 13421773 / 16777216) = 3355443 / 16777216"
  using f32_evalI [of "- 3" "1 - 13421773 / 16777216" 13421772] by (simp add: pow2_def)

lemma f32_product: "f32 (3355443 / 16777216 * 20) = 16777215 / 4194304"
  using f32_evalI [of 1 "3355443 / 16777216 * 20" 16777215] by (simp add: pow2_def)

lemma f32_20: "f32 (of_int 20) = 20"
  using f32_of_int [of 20] by simp

lemma py_int_nonneg: "0 \<le> q \<Longrightarrow> 0 \<le> py_int q"
  by (simp add: py_int_def)

lemma py_int_floor: "0 \<le> q \<Longrightarrow> py_int q = \<lfloor>q\<rfloor>"
  by (simp add: py_int_def)

lemma shift_204_20: "shift_px (normalize_depth 204) 20 = 3"
proof -
  have n: "normalize_depth 204 = 13421773 / 16777216"
    using f32_four_fifths by (simp add: normalize_depth_def)
  have "\<lfloor>16777215 / 4194304 :: rat\<rfloor> = 3" by (rule floor_unique) simp_all
  then have "py_int (16777215 / 4194304) = 3" by (simp add: py_int_def)
  then show ?thesis
    unfolding shift_px_def n f32_one_fifth f32_20 f32_product
    by (simp add: astype_int32_def)
qed

subsection \<open>The shift field\<close>

lemma py_int_le: "0 \<le> q \<Longrightarrow> q \<le> of_int N \<Longrightarrow> py_int q \<le> N"
  by (simp add: py_int_def floor_le_iff)

lemma astype_int32_small:
  assumes "0 \<le> q" "q \<le> 2 ^ 30"
  shows "astype_int32 q = py_int q \<and> 0 \<le> py_int q"
proof -
  have "q \<le> of_int (2 ^ 30)" using assms(2) by simp
  then have "py_int q \<le> 2 ^ 30" using assms(1) by (intro py_int_le)
  moreover have "0 \<le> py_int q" using assms(1) by (rule py_int_nonneg)
  ultimately show ?thesis by (simp add: astype_int32_def)
qed

lemma f32_le_1: "q \<le> 1 \<Longrightarrow> f32 q \<le> 1"
  using f32_le_pow2 [of q 0] by simp

lemma normalize_depth_range: "0 \<le> normalize_depth g \<and> normalize_depth g \<le> 1"
proof -
  have "unat g < 2 ^ 8" using unsigned_less [of g, where ?'a = nat] by simp
  then have "unat g \<le> 255" by simp
  then have "(of_nat (unat g) :: rat) \<le> 255"
    by (metis of_nat_le_iff of_nat_numeral)
  then have "(of_nat (unat g) / 255 :: rat) \<le> 1" by simp
  moreover have "(0::rat) \<le> of_nat (unat g)" by (rule of_nat_0_le_iff)
  then have "(0::rat) \<le> of_nat (unat g) / 255" by (rule divide_nonneg_nonneg) simp
  ultimately show ?thesis
    unfolding normalize_depth_def using f32_nonneg f32_le_1 by blast
qed

lemma shift_px_range:
  assumes "0 \<le> max_shift" "max_shift \<le> 2 ^ 30" "0 \<le> depth" "depth \<le> 1"
  shows "shift_px depth max_shift = py_int (f32 (f32 (1 - depth) * f32 (of_int max_shift))) \<and>
         0 \<le> shift_px depth max_shift"
proof -
  define a where "a = f32 (1 - depth)"
  define b where "b = f32 (of_int max_shift)"
  have a: "0 \<le> a" "a \<le> 1"
    using assms(3,4) by (simp_all add: a_def f32_nonneg f32_le_1)
  have "(of_int max_shift :: rat) \<le> of_int (2 ^ 30)" using assms(2) by (simp only: of_int_le_iff)
  then have "(of_int max_shift :: rat) \<le> 2 ^ 30" by simp
  then have b: "0 \<le> b" "b \<le> 2 ^ 30"
    using assms(1) f32_le_pow2 [of "of_int max_shift" 30] by (simp_all add: b_def f32_nonneg)
  have p0: "0 \<le> a * b" using a(1) b(1) by simp
  have "a * b \<le> 1 * 2 ^ 30" using a b by (intro mult_mono) simp_all
  then have p1: "a * b \<le> 2 ^ 30" by simp
  have "0 \<le> f32 (a * b)" "f32 (a * b) \<le> 2 ^ 30"
    using p0 p1 f32_le_pow2 [of "a * b" 30] by (simp_all add: f32_nonneg)
  from astype_int32_small [OF this] show ?thesis
    by (simp add: shift_px_def a_def b_def)
qed

lemma shift_px_no_depth: "shift_px 1 max_shift = 0"
  by (simp add: shift_px_def f32_zero astype_int32_def py_int_def)

lemma shift_px_depth_0:
  assumes "\<bar>max_shift\<bar> \<le> 2 ^ 24"
  shows "shift_px 0 max_shift = max_shift"
proof -
  have one: "f32 1 = 1" using f32_of_int [of 1] by simp
  have m: "f32 (of_int max_shift) = of_int max_shift" by (rule f32_of_int [OF assms])
  have r: "- (2 ^ 31) \<le> max_shift \<and> max_shift < 2 ^ 31" using assms by auto
  have "py_int (of_int max_shift) = max_shift" by (simp add: py_int_def)
  then show ?thesis using r by (simp add: shift_px_def one m astype_int32_def)
qed

lemma normalize_depth_255: "normalize_depth 255 = 1"
  using f32_of_int [of 1] by (simp add: normalize_depth_def)

lemma normalize_depth_0: "normalize_depth 0 = 0"
  by (simp add: normalize_depth_def f32_zero)

lemma shift_field_nonneg:
  assumes "0 \<le> max_shift" "max_shift \<le> 2 ^ 30"
  shows "\<forall>j < length (shift_field H W depth max_shift).
           \<forall>x < length (shift_field H W depth max_shift ! j).
              0 \<le> shift_field H W depth max_shift ! j ! x"
proof (cases depth)
  case None
  then show ?thesis using shift_px_no_depth by (simp add: shift_field_def)
next
  case (Some dm)
  have "0 \<le> shift_px (normalize_depth g) max_shift" for g
    using shift_px_range [OF assms, of "normalize_depth g"] normalize_depth_range [of g] by simp
  with Some show ?thesis by (simp add: shift_field_def)
qed

lemma shift_field_no_depth:
  "shift_field H W None max_shift = replicate H (replicate W 0)"
  by (simp add: shift_field_def shift_px_no_depth)

lemma shift_field_fits:
  "depth_covers frame depth \<longleftrightarrow>
     (\<forall>i < height frame. row_fits (width frame)
        (shift_field (height frame) (width frame) depth max_shift) i)"
proof (cases depth)
  case None
  then show ?thesis by (simp add: depth_covers_def shift_field_def row_fits_def)
next
  case (Some dm)
  show ?thesis
  proof (cases "height frame \<le> length dm")
    case True
    then show ?thesis using Some
      by (auto simp: depth_covers_def shift_field_def row_fits_def list_all_length)
  next
    case False
    then have "\<not> row_fits (width frame)
        (shift_field (height frame) (width frame) depth max_shift) (length dm)"
      using Some by (simp add: row_fits_def shift_field_def)
    moreover have "length dm < height frame" using False by simp
    ultimately have "\<not> (\<forall>i < height frame. row_fits (width frame)
        (shift_field (height frame) (width frame) depth max_shift) i)" by blast
    moreover have "\<not> depth_covers frame depth" using Some False by (simp add: depth_covers_def)
    ultimately show ?thesis by blast
  qed
qed

lemma scatter_frame_nonneg:
  assumes "\<forall>j < length (shift_field (height frame) (width frame) depth max_shift).
           \<forall>x < length (shift_field (height frame) (width frame) depth max_shift ! j).
              0 \<le> shift_field (height frame) (width frame) depth max_shift ! j ! x"
  shows "depth_covers frame depth \<Longrightarrow>
           scatter_frame frame depth max_shift =
             Inr (left_eye_of (width frame)
                    (shift_field (height frame) (width frame) depth max_shift) frame,
                  right_eye_of (width frame)
                    (shift_field (height frame) (width frame) depth max_shift) frame)"
    and "\<not> depth_covers frame depth \<Longrightarrow> scatter_frame frame depth max_shift = Inl IndexError"
proof -
  let ?shift = "shift_field (height frame) (width frame) depth max_shift"
  {
    assume "depth_covers frame depth"
    then have fits: "\<forall>i < length frame. row_fits (width frame) ?shift (0 + i)"
      using shift_field_fits [of frame depth max_shift] by (simp add: height_def)
    from scatter_rows_ok [OF fits assms]
    show "scatter_frame frame depth max_shift =
        Inr (left_eye_of (width frame) ?shift frame, right_eye_of (width frame) ?shift frame)"
      by (simp add: scatter_frame_def left_eye_of_def right_eye_of_def Let_def)
  }
  {
    assume "\<not> depth_covers frame depth"
    then have bad: "\<exists>i < length frame. \<not> row_fits (width frame) ?shift (0 + i)"
      using shift_field_fits [of frame depth max_shift] by (simp add: height_def)
    from scatter_rows_err [OF bad assms]
    show "scatter_frame frame depth max_shift = Inl IndexError"
      by (simp add: scatter_frame_def Let_def)
  }
qed

lemma scatter_frame_ok:
  assumes "0 \<le> max_shift" "max_shift \<le> 2 ^ 30" "depth_covers frame depth"
  shows "scatter_frame frame depth max_shift =
     Inr (left_eye_of (width frame)
            (shift_field (height frame) (width frame) depth max_shift) frame,
          right_eye_of (width frame)
            (shift_field (height frame) (width frame) depth max_shift) frame)"
  by (rule scatter_frame_nonneg(1) [OF shift_field_nonneg [OF assms(1,2)] assms(3)])

lemma scatter_frame_err:
  assumes "0 \<le> max_shift" "max_shift \<le> 2 ^ 30" "\<not> depth_covers frame depth"
  shows "scatter_frame frame depth max_shift = Inl IndexError"
  by (rule scatter_frame_nonneg(2) [OF shift_field_nonneg [OF assms(1,2)] assms(3)])

lemma shift_field_nth:
  assumes "depth_covers frame depth" "y < height frame" "x < width frame"
  shows "shift_field (height frame) (width frame) depth max_shift ! y ! x
           = shift_px (depth_at depth y x) max_shift"
proof (cases depth)
  case None
  with assms show ?thesis by (simp add: shift_field_def depth_at_def)
next
  case (Some dm)
  with assms have y: "y < length dm"
    and all: "\<forall>n. n < length dm \<and> n < height frame \<longrightarrow> width frame \<le> length (dm ! n)"
    by (auto simp: depth_covers_def list_all_length)
  from all y assms(2) have "width frame \<le> length (dm ! y)" by blast
  with assms(3) y have "y < length dm" "x < length (dm ! y)" by simp_all
  with Some show ?thesis by (simp add: shift_field_def depth_at_def)
qed

lemma depth_at_range: "0 \<le> depth_at depth y x \<and> depth_at depth y x \<le> 1"
  by (cases depth) (simp_all add: depth_at_def normalize_depth_range)

lemma left_eye_of_nth:
  "y < length frame \<Longrightarrow> c < W \<Longrightarrow>
     left_eye_of W shift frame ! y ! c =
       (case last_writer (left_col W (shift ! y)) [0 ..< W] c of
          None \<Rightarrow> black | Some x \<Rightarrow> frame ! y ! x)"
  by (simp add: left_eye_of_def scattered_def split: option.splits)

lemma right_eye_of_nth:
  "y < length frame \<Longrightarrow> c < W \<Longrightarrow>
     right_eye_of W shift frame ! y ! c =
       (case last_writer (right_col (shift ! y)) [0 ..< W] c of
          None \<Rightarrow> black | Some x \<Rightarrow> frame ! y ! x)"
  by (simp add: right_eye_of_def scattered_def split: option.splits)

subsection \<open>Evaluation on the sample inputs\<close>

lemma shift_px_255: "shift_px (normalize_depth 255) max_shift = 0"
  by (simp add: normalize_depth_255 shift_px_no_depth)

lemma shift_px_0: "\<bar>max_shift\<bar> \<le> 2 ^ 24 \<Longrightarrow> shift_px (normalize_depth 0) max_shift = max_shift"
  by (simp add: normalize_depth_0 shift_px_depth_0)

lemma upt_3: "[0 ..< 3] = [0, 1, 2]"
  by (simp add: numeral_3_eq_3 numeral_2_eq_2)

lemma upt_2: "[0 ..< 2] = [0, 1]"
  by (simp add: numeral_2_eq_2)

lemma sample_dims: "height sample_frame = 3" "width sample_frame = 3" "rect sample_frame"
  by (simp_all add: height_def width_def rect_def sample_frame_def)

lemma sample_shift:
  "shift_field 3 3 (Some sample_depth) 1 = [[0, 1, 0], [0, 0, 0], [1, 0, 0]]"
  using shift_px_0 [of 1] by (simp add: shift_field_def sample_depth_def shift_px_255)

lemma sample_scatter:
  "scatter_frame sample_frame (Some sample_depth) 1 =
     Inr ([[(1, 1, 1), (0, 0, 0), (3, 3, 3)],
           [(4, 4, 4), (0, 0, 0), (6, 6, 6)],
           [(0, 0, 0), (8, 8, 8), (9, 9, 9)]],
          [[(2, 2, 2), (0, 0, 0), (3, 3, 3)],
           [(4, 4, 4), (0, 0, 0), (6, 6, 6)],
           [(7, 7, 7), (8, 8, 8), (9, 9, 9)]])"
  unfolding scatter_frame_def sample_dims Let_def sample_shift
  by (simp add: sample_frame_def upt_3 np_get_def np_set_def black_def Let_def
        numeral_3_eq_3 numeral_2_eq_2)

lemma sample_covers: "depth_covers sample_frame (Some sample_depth)"
  by (simp add: depth_covers_def sample_dims sample_depth_def numeral_3_eq_3)

lemma hole_iff_black: "hole p \<longleftrightarrow> p = black"
  by (cases p) (auto simp: hole_def black_def ch0_def ch1_def ch2_def unsigned_eq_0_iff)

lemma hole_values:
  "hole (0, 0, 0)" "\<not> hole (1, 1, 1)" "\<not> hole (2, 2, 2)" "\<not> hole (3, 3, 3)"
  "\<not> hole (4, 4, 4)" "\<not> hole (6, 6, 6)" "\<not> hole (7, 7, 7)" "\<not> hole (8, 8, 8)"
  "\<not> hole (9, 9, 9)"
  by (simp_all add: hole_iff_black black_def)

lemma sample_inpaint_left:
  "inpaint grey_fill
     [[(1, 1, 1), (0, 0, 0), (3, 3, 3)],
      [(4, 4, 4), (0, 0, 0), (6, 6, 6)],
      [(0, 0, 0), (8, 8, 8), (9, 9, 9)]]
     (hole_mask [[(1, 1, 1), (0, 0, 0), (3, 3, 3)],
                 [(4, 4, 4), (0, 0, 0), (6, 6, 6)],
                 [(0, 0, 0), (8, 8, 8), (9, 9, 9)]])
   = [[(1, 1, 1), (128, 128, 128), (3, 3, 3)],
      [(4, 4, 4), (128, 128, 128), (6, 6, 6)],
      [(128, 128, 128), (8, 8, 8), (9, 9, 9)]]"
  by (simp add: inpaint_def hole_mask_def all_masked_def hole_values grey_fill_def upt_3)

lemma sample_inpaint_right:
  "inpaint grey_fill
     [[(2, 2, 2), (0, 0, 0), (3, 3, 3)],
      [(4, 4, 4), (0, 0, 0), (6, 6, 6)],
      [(7, 7, 7), (8, 8, 8), (9, 9, 9)]]
     (hole_mask [[(2, 2, 2), (0, 0, 0), (3, 3, 3)],
                 [(4, 4, 4), (0, 0, 0), (6, 6, 6)],
                 [(7, 7, 7), (8, 8, 8), (9, 9, 9)]])
   = [[(2, 2, 2), (128, 128, 128), (3, 3, 3)],
      [(4, 4, 4), (128, 128, 128), (6, 6, 6)],
      [(7, 7, 7), (8, 8, 8), (9, 9, 9)]]"
  by (simp add: inpaint_def hole_mask_def all_masked_def hole_values grey_fill_def upt_3)

lemma sample_inpaint_frame:
  "inpaint grey_fill sample_frame (hole_mask sample_frame)
   = [[(1, 1, 1), (2, 2, 2), (3, 3, 3)],
      [(4, 4, 4), (128, 128, 128), (6, 6, 6)],
      [(7, 7, 7), (8, 8, 8), (9, 9, 9)]]"
  by (simp add: sample_frame_def inpaint_def hole_mask_def all_masked_def hole_values
        grey_fill_def upt_3)

lemma black_inpaint: "inpaint fill black_frame (hole_mask black_frame) = black_frame"
  by (simp add: inpaint_def hole_mask_def all_masked_def black_frame_def hole_values
        numeral_3_eq_3)

subsection \<open>The columns written by the scatter\<close>

text \<open>
  Claim C3, amended.  For a frame of width \<open>W\<close> at most \<open>2\<close> to the power of 30, a depth
  map that covers the frame (or none) and \<open>0 \<le> max_shift \<le> 2 ^ 30\<close>, the scatter raises
  nothing.  The shift of pixel \<open>(x, y)\<close> is computed in \<^verbatim>\<open>float32\<close>: the depth is the grey
  level divided by 255 and rounded, \<open>1 - depth\<close> is rounded, \<open>max_shift\<close> is rounded, their
  product is rounded, and the result is truncated toward zero to the integer \<open>d \<ge> 0\<close>.  The
  pixel is written to column \<open>min (W - 1) (x + d)\<close> of the left image and to column
  \<open>max 0 (x - d)\<close> of the right image; before hole detection a destination column holds
  the pixel of the last source column written there, and black when none was.
\<close>

theorem scatter_writes_clamped_columns:
  assumes "0 \<le> max_shift" "max_shift \<le> 2 ^ 30" "width frame \<le> 2 ^ 30"
    and "depth_covers frame depth"
  shows "(let H = height frame; W = width frame;
              shift = shift_field H W depth max_shift
          in \<exists>left_eye right_eye.
               scatter_frame frame depth max_shift = Inr (left_eye, right_eye) \<and>
               (\<forall>y < H. \<forall>x < W.
                  shift ! y ! x
                    = py_int (f32 (f32 (1 - depth_at depth y x) * f32 (of_int max_shift)))
                  \<and> 0 \<le> shift ! y ! x) \<and>
               (\<forall>y < H. \<forall>c < W.
                  left_eye ! y ! c =
                    (case last_writer (\<lambda>x. min (int W - 1) (int x + shift ! y ! x)) [0 ..< W] c of
                       None \<Rightarrow> black | Some x \<Rightarrow> frame ! y ! x) \<and>
                  right_eye ! y ! c =
                    (case last_writer (\<lambda>x. max 0 (int x - shift ! y ! x)) [0 ..< W] c of
                       None \<Rightarrow> black | Some x \<Rightarrow> frame ! y ! x)))"
proof -
  let ?H = "height frame" and ?W = "width frame"
  let ?shift = "shift_field ?H ?W depth max_shift"
  have ok: "scatter_frame frame depth max_shift =
      Inr (left_eye_of ?W ?shift frame, right_eye_of ?W ?shift frame)"
    by (rule scatter_frame_ok [OF assms(1,2,4)])
  have sh: "?shift ! y ! x = py_int (f32 (f32 (1 - depth_at depth y x) * f32 (of_int max_shift)))
      \<and> 0 \<le> ?shift ! y ! x" if "y < ?H" "x < ?W" for y x
    using shift_field_nth [OF assms(4) that, of max_shift]
      shift_px_range [OF assms(1,2), of "depth_at depth y x"] depth_at_range [of depth y x]
    by simp
  have cols: "left_eye_of ?W ?shift frame ! y ! c =
         (case last_writer (\<lambda>x. min (int ?W - 1) (int x + ?shift ! y ! x)) [0 ..< ?W] c of
            None \<Rightarrow> black | Some x \<Rightarrow> frame ! y ! x) \<and>
       right_eye_of ?W ?shift frame ! y ! c =
         (case last_writer (\<lambda>x. max 0 (int x - ?shift ! y ! x)) [0 ..< ?W] c of
            None \<Rightarrow> black | Some x \<Rightarrow> frame ! y ! x)" if "y < ?H" "c < ?W" for y c
  proof -
    have l: "left_col ?W (?shift ! y) = (\<lambda>x. min (int ?W - 1) (int x + ?shift ! y ! x))"
      by (rule ext) (simp add: left_col_def)
    have r: "right_col (?shift ! y) = (\<lambda>x. max 0 (int x - ?shift ! y ! x))"
      by (rule ext) (simp add: right_col_def)
    from that have y: "y < length frame" by (simp add: height_def)
    show ?thesis
      using left_eye_of_nth [OF y that(2), of ?shift] right_eye_of_nth [OF y that(2), of ?shift]
      unfolding l r by simp
  qed
  show ?thesis
    unfolding Let_def
    apply (rule exI [of _ "left_eye_of ?W ?shift frame"])
    apply (rule exI [of _ "right_eye_of ?W ?shift frame"])
    using ok sh cols by blast
qed

text \<open>
  The theorem on the sample frame with \<open>max_shift = 1\<close>: the pixel of depth 0 in the
  first row moves one column right in the left image and one column left in the right
  image, the pixel of depth 0 in the last row moves right in the left image and is
  clamped to column 0 in the right image.
\<close>

theorem scatter_writes_clamped_columns_witness:
  "(0::int) \<le> 1 \<and> (1::int) \<le> 2 ^ 30 \<and> width sample_frame \<le> 2 ^ 30 \<and>
   depth_covers sample_frame (Some sample_depth) \<and>
   (\<exists>left_eye right_eye.
      scatter_frame sample_frame (Some sample_depth) 1 = Inr (left_eye, right_eye)) \<and>
   shift_field 3 3 (Some sample_depth) 1 = [[0, 1, 0], [0, 0, 0], [1, 0, 0]] \<and>
   scatter_frame sample_frame (Some sample_depth) 1
     = Inr ([[(1, 1, 1), (0, 0, 0), (3, 3, 3)],
             [(4, 4, 4), (0, 0, 0), (6, 6, 6)],
             [(0, 0, 0), (8, 8, 8), (9, 9, 9)]],
            [[(2, 2, 2), (0, 0, 0), (3, 3, 3)],
             [(4, 4, 4), (0, 0, 0), (6, 6, 6)],
             [(7, 7, 7), (8, 8, 8), (9, 9, 9)]])"
proof -
  have m: "(0::int) \<le> 1" "(1::int) \<le> 2 ^ 30" by simp_all
  have w: "width sample_frame \<le> 2 ^ 30" by (simp add: sample_dims)
  from scatter_writes_clamped_columns [OF m w sample_covers]
  have "\<exists>left_eye right_eye.
      scatter_frame sample_frame (Some sample_depth) 1 = Inr (left_eye, right_eye)"
    unfolding Let_def by blast
  with m w sample_covers sample_shift sample_scatter show ?thesis by blast
qed

text \<open>
  Claim C3 as stated fails for a negative \<open>max_shift\<close>: on a frame of one pixel with depth
  0 and \<open>max_shift = -1\<close> the shift is \<open>-1\<close>, the right image is indexed at column 1 of a
  row of length 1, and the synthesizer raises \<^verbatim>\<open>IndexError\<close> instead of writing.
\<close>

theorem negative_max_shift_counterexample:
  "generate_stereo_from_depth_frame grey_fill [[(1, 1, 1)]] (Some [[0]]) (- 1)
     = Inl IndexError"
proof -
  have s: "shift_field 1 1 (Some [[0]]) (- 1) = [[- 1]]"
    using shift_px_0 [of "- 1"] by (simp add: shift_field_def)
  have d: "height [[(1, 1, 1)]] = 1" "width [[(1, 1, 1)]] = 1"
    by (simp_all add: height_def width_def)
  have "scatter_frame [[(1, 1, 1)]] (Some [[0]]) (- 1) = Inl IndexError"
    unfolding scatter_frame_def d Let_def s
    by (simp add: np_get_def np_set_def black_def Let_def)
  then show ?thesis by (simp add: generate_stereo_from_depth_frame_def)
qed

text \<open>
  The same happens at the other end: from \<open>max_shift = 2 ^ 31\<close> on, the shift of a pixel of
  depth 0 is outside \<^verbatim>\<open>int32\<close> and the conversion gives the smallest \<^verbatim>\<open>int32\<close>.
\<close>

lemma huge_max_shift_raises:
  "generate_stereo_from_depth_frame grey_fill [[(1, 1, 1)]] (Some [[0]]) (2 ^ 31)
     = Inl IndexError"
proof -
  have one: "f32 1 = 1" using f32_of_int [of 1] by simp
  have p: "f32 2147483648 = 2147483648"
    using f32_evalI [of 31 2147483648 8388608] by (simp add: pow2_def)
  have "shift_px (normalize_depth 0) (2 ^ 31) = - (2 ^ 31)"
    by (simp add: normalize_depth_0 shift_px_def one p astype_int32_def py_int_def)
  then have s: "shift_field 1 1 (Some [[0]]) (2 ^ 31) = [[- (2 ^ 31)]]"
    by (simp add: shift_field_def)
  have d: "height [[(1, 1, 1)]] = 1" "width [[(1, 1, 1)]] = 1"
    by (simp_all add: height_def width_def)
  have "scatter_frame [[(1, 1, 1)]] (Some [[0]]) (2 ^ 31) = Inl IndexError"
    unfolding scatter_frame_def d Let_def s
    by (simp add: np_get_def np_set_def black_def Let_def)
  then show ?thesis by (simp add: generate_stereo_from_depth_frame_def)
qed

subsection \<open>Depth maps of another size, and no depth map\<close>

lemma last_writer_identity: "c < W \<Longrightarrow> last_writer int [0 ..< W] c = Some c"
  by (induction W) (auto simp: last_writer_def)

lemma last_writer_cong:
  "(\<And>x. x \<in> set xs \<Longrightarrow> f x = g x) \<Longrightarrow> last_writer f xs c = last_writer g xs c"
  unfolding last_writer_def by (rule find_cong) simp_all

lemma zero_shift_left: "c < W \<Longrightarrow> last_writer (left_col W (replicate W 0)) [0 ..< W] c = Some c"
proof -
  assume c: "c < W"
  have "last_writer (left_col W (replicate W 0)) [0 ..< W] c = last_writer int [0 ..< W] c"
    by (rule last_writer_cong) (auto simp: left_col_def)
  with c show ?thesis by (simp add: last_writer_identity)
qed

lemma zero_shift_right: "c < W \<Longrightarrow> last_writer (right_col (replicate W 0)) [0 ..< W] c = Some c"
proof -
  assume c: "c < W"
  have "last_writer (right_col (replicate W 0)) [0 ..< W] c = last_writer int [0 ..< W] c"
    by (rule last_writer_cong) (auto simp: right_col_def)
  with c show ?thesis by (simp add: last_writer_identity)
qed

lemma zero_shift_eyes:
  assumes "rect frame"
  shows "left_eye_of (width frame) (replicate (height frame) (replicate (width frame) 0)) frame = frame"
    and "right_eye_of (width frame) (replicate (height frame) (replicate (width frame) 0)) frame = frame"
proof -
  let ?W = "width frame"
  let ?Z = "replicate (height frame) (replicate ?W 0) :: int list list"
  have len: "length (frame ! y) = ?W" if "y < length frame" for y
    using assms that by (simp add: rect_def list_all_length)
  have z: "?Z ! y = replicate ?W 0" if "y < length frame" for y
    using that by (simp add: height_def)
  show "left_eye_of ?W ?Z frame = frame"
  proof (rule nth_equalityI)
    show "length (left_eye_of ?W ?Z frame) = length frame" by (simp add: left_eye_of_def)
    fix y assume "y < length (left_eye_of ?W ?Z frame)"
    then have y: "y < length frame" by (simp add: left_eye_of_def)
    show "left_eye_of ?W ?Z frame ! y = frame ! y"
    proof (rule nth_equalityI)
      show "length (left_eye_of ?W ?Z frame ! y) = length (frame ! y)"
        using y len by (simp add: left_eye_of_def)
      fix c assume "c < length (left_eye_of ?W ?Z frame ! y)"
      then have c: "c < ?W" using y by (simp add: left_eye_of_def)
      show "left_eye_of ?W ?Z frame ! y ! c = frame ! y ! c"
        using left_eye_of_nth [OF y c, of ?Z] zero_shift_left [OF c] z [OF y] by simp
    qed
  qed
  show "right_eye_of ?W ?Z frame = frame"
  proof (rule nth_equalityI)
    show "length (right_eye_of ?W ?Z frame) = length frame" by (simp add: right_eye_of_def)
    fix y assume "y < length (right_eye_of ?W ?Z frame)"
    then have y: "y < length frame" by (simp add: right_eye_of_def)
    show "right_eye_of ?W ?Z frame ! y = frame ! y"
    proof (rule nth_equalityI)
      show "length (right_eye_of ?W ?Z frame ! y) = length (frame ! y)"
        using y len by (simp add: right_eye_of_def)
      fix c assume "c < length (right_eye_of ?W ?Z frame ! y)"
      then have c: "c < ?W" using y by (simp add: right_eye_of_def)
      show "right_eye_of ?W ?Z frame ! y ! c = frame ! y ! c"
        using right_eye_of_nth [OF y c, of ?Z] zero_shift_right [OF c] z [OF y] by simp
    qed
  qed
qed


lemma stereo_without_depth:
  assumes "rect frame"
  shows "generate_stereo_from_depth_frame fill frame None max_shift
           = Inr (inpaint fill frame (hole_mask frame), inpaint fill frame (hole_mask frame))"
proof -
  have cov: "depth_covers frame None" by (simp add: depth_covers_def)
  have z: "shift_field (height frame) (width frame) None max_shift
      = replicate (height frame) (replicate (width frame) 0)"
    by (rule shift_field_no_depth)
  have nn: "\<forall>j < length (shift_field (height frame) (width frame) None max_shift).
           \<forall>x < length (shift_field (height frame) (width frame) None max_shift ! j).
              0 \<le> shift_field (height frame) (width frame) None max_shift ! j ! x"
    unfolding z by simp
  show ?thesis
    using scatter_frame_nonneg(1) [OF nn cov] zero_shift_eyes [OF assms]
    by (simp add: generate_stereo_from_depth_frame_def z)
qed

text \<open>
  Claim C7, amended.  The synthesizer has no dimension check and no error of its own.
  For a frame at most \<open>2 ^ 30\<close> pixels wide and \<open>0 \<le> max_shift \<le> 2 ^ 30\<close> it raises exactly
  when the depth map has fewer rows than the frame or one of the rows it reads is narrower
  than the frame, and what it raises is the \<^verbatim>\<open>IndexError\<close> of the array read; a depth map
  larger than the frame is accepted.  An absent depth map is replaced by the uniform depth
  1, the shift is zero, and both eye images are the inpainted frame.
\<close>

theorem stereo_raises_iff_depth_too_small:
  assumes "0 \<le> max_shift" "max_shift \<le> 2 ^ 30" "width frame \<le> 2 ^ 30"
  shows "(\<not> depth_covers frame depth \<longrightarrow>
            generate_stereo_from_depth_frame fill frame depth max_shift = Inl IndexError) \<and>
         (depth_covers frame depth \<longrightarrow>
            (\<exists>left right.
               generate_stereo_from_depth_frame fill frame depth max_shift = Inr (left, right))) \<and>
         (rect frame \<longrightarrow>
            shift_field (height frame) (width frame) None max_shift
              = replicate (height frame) (replicate (width frame) 0) \<and>
            generate_stereo_from_depth_frame fill frame None max_shift
              = Inr (inpaint fill frame (hole_mask frame), inpaint fill frame (hole_mask frame)))"
proof -
  have a: "generate_stereo_from_depth_frame fill frame depth max_shift = Inl IndexError"
    if "\<not> depth_covers frame depth"
    using scatter_frame_err [OF assms(1,2) that] by (simp add: generate_stereo_from_depth_frame_def)
  have b: "\<exists>left right.
      generate_stereo_from_depth_frame fill frame depth max_shift = Inr (left, right)"
    if "depth_covers frame depth"
    using scatter_frame_ok [OF assms(1,2) that] by (simp add: generate_stereo_from_depth_frame_def)
  have c: "generate_stereo_from_depth_frame fill frame None max_shift
              = Inr (inpaint fill frame (hole_mask frame), inpaint fill frame (hole_mask frame))"
    if "rect frame"
    by (rule stereo_without_depth [OF that])
  from a b c shift_field_no_depth show ?thesis by blast
qed

text \<open>
  The theorem on the sample frame: a depth map of one pixel makes it raise
  \<^verbatim>\<open>IndexError\<close>; with no depth map both eyes are the frame with its black pixel
  inpainted.
\<close>

theorem stereo_raises_iff_depth_too_small_witness:
  "(0::int) \<le> 30 \<and> (30::int) \<le> 2 ^ 30 \<and> width sample_frame \<le> 2 ^ 30 \<and>
   depth_covers sample_frame None \<and> rect sample_frame \<and>
   generate_stereo_from_depth_frame grey_fill sample_frame (Some [[255]]) 30 = Inl IndexError \<and>
   generate_stereo_from_depth_frame grey_fill sample_frame None 30
     = Inr ([[(1, 1, 1), (2, 2, 2), (3, 3, 3)],
             [(4, 4, 4), (128, 128, 128), (6, 6, 6)],
             [(7, 7, 7), (8, 8, 8), (9, 9, 9)]],
            [[(1, 1, 1), (2, 2, 2), (3, 3, 3)],
             [(4, 4, 4), (128, 128, 128), (6, 6, 6)],
             [(7, 7, 7), (8, 8, 8), (9, 9, 9)]])"
proof -
  have m: "(0::int) \<le> 30" "(30::int) \<le> 2 ^ 30" by simp_all
  have w: "width sample_frame \<le> 2 ^ 30" by (simp add: sample_dims)
  have n: "\<not> depth_covers sample_frame (Some [[255]])"
    by (simp add: depth_covers_def sample_dims)
  have c: "depth_covers sample_frame None" by (simp add: depth_covers_def)
  from stereo_raises_iff_depth_too_small [OF m w, where depth = "Some [[255]]" and fill = grey_fill]
    n sample_dims(3) sample_inpaint_frame
  show ?thesis using m w c by simp
qed

text \<open>
  Claim C7 as stated fails: a depth map of 3 by 3 pixels for a frame of 2 by 2 pixels is a
  dimension mismatch, and the synthesizer returns a stereo pair.
\<close>

theorem larger_depth_accepted_counterexample:
  "generate_stereo_from_depth_frame grey_fill
     [[(1, 1, 1), (2, 2, 2)], [(3, 3, 3), (4, 4, 4)]]
     (Some [[255, 255, 255], [255, 255, 255], [255, 255, 255]]) 30
     = Inr ([[(1, 1, 1), (2, 2, 2)], [(3, 3, 3), (4, 4, 4)]],
            [[(1, 1, 1), (2, 2, 2)], [(3, 3, 3), (4, 4, 4)]])"
proof -
  let ?F = "[[(1, 1, 1), (2, 2, 2)], [(3, 3, 3), (4, 4, 4)]] :: image"
  have d: "height ?F = 2" "width ?F = 2" by (simp_all add: height_def width_def)
  have s: "shift_field 2 2 (Some [[255, 255, 255], [255, 255, 255], [255, 255, 255]]) 30
      = [[0, 0, 0], [0, 0, 0], [0, 0, 0]]"
    by (simp add: shift_field_def shift_px_255)
  have sc: "scatter_frame ?F (Some [[255, 255, 255], [255, 255, 255], [255, 255, 255]]) 30
      = Inr (?F, ?F)"
    unfolding scatter_frame_def d Let_def s
    by (simp add: upt_2 np_get_def np_set_def black_def Let_def numeral_2_eq_2)
  have i: "inpaint grey_fill ?F (hole_mask ?F) = ?F"
    by (simp add: inpaint_def hole_mask_def all_masked_def hole_values grey_fill_def upt_2)
  show ?thesis by (simp add: generate_stereo_from_depth_frame_def sc i)
qed

subsection \<open>Hole detection and inpainting\<close>

lemma hole_mask_nth:
  "y < length eye \<Longrightarrow> c < length (eye ! y) \<Longrightarrow> hole_mask eye ! y ! c = hole (eye ! y ! c)"
  by (simp add: hole_mask_def)

lemma inpaint_nth:
  assumes "y < length eye" "c < length (eye ! y)"
  shows "inpaint fill eye (hole_mask eye) ! y ! c =
           (if hole (eye ! y ! c) then inpainted fill eye y c else eye ! y ! c)"
proof (cases "all_masked (hole_mask eye)")
  case True
  then show ?thesis by (simp add: inpaint_def inpainted_def)
next
  case False
  then show ?thesis using assms by (simp add: inpaint_def inpainted_def hole_mask_nth)
qed

lemma inpainted_pixel:
  assumes "y < length eye" "c < length (eye ! y)"
  shows "(hole_mask eye ! y ! c \<longleftrightarrow> eye ! y ! c = black) \<and>
         inpaint fill eye (hole_mask eye) ! y ! c =
           (if eye ! y ! c = black then inpainted fill eye y c else eye ! y ! c)"
  using inpaint_nth [OF assms, of fill] hole_mask_nth [OF assms]
  by (simp add: hole_iff_black)

lemma all_masked_iff:
  "all_masked (hole_mask eye) \<longleftrightarrow>
     (\<forall>y < length eye. \<forall>c < length (eye ! y). eye ! y ! c = black)"
  by (simp add: all_masked_def hole_mask_def list_all_length hole_iff_black)

lemma eye_of_dims:
  "length (left_eye_of W shift frame) = length frame"
  "length (right_eye_of W shift frame) = length frame"
  "y < length frame \<Longrightarrow> length (left_eye_of W shift frame ! y) = W"
  "y < length frame \<Longrightarrow> length (right_eye_of W shift frame ! y) = W"
  by (simp_all add: left_eye_of_def right_eye_of_def)

lemma inpainted_cases:
  "inpainted fill eye y c =
     (if \<forall>y' < length eye. \<forall>c' < length (eye ! y'). eye ! y' ! c' = black
      then eye ! y ! c else fill eye (hole_mask eye) y c)"
  by (simp add: inpainted_def all_masked_iff)

text \<open>
  Claim C10, amended.  For a frame at most \<open>2 ^ 30\<close> pixels wide, a depth map that covers
  it (or none) and \<open>0 \<le> max_shift \<le> 2 ^ 30\<close>: the hole mask of an eye image marks exactly
  its pixels that are \<open>(0, 0, 0)\<close>.  So a destination pixel whose last written source
  pixel is pure black is marked like a destination pixel that no source pixel was written
  to, and both are handed to the inpainting; every other pixel is kept.  What the
  inpainting leaves at a marked pixel is the value it computes when the eye image has a
  pixel that is not black, and the black pixel itself when the whole eye image is black.
  This holds for the left and for the right image.
\<close>

theorem black_source_pixels_are_inpainted:
  assumes "0 \<le> max_shift" "max_shift \<le> 2 ^ 30" "width frame \<le> 2 ^ 30"
    and "depth_covers frame depth"
  shows "(let H = height frame; W = width frame;
              shift = shift_field H W depth max_shift
          in \<exists>left_eye right_eye.
               scatter_frame frame depth max_shift = Inr (left_eye, right_eye) \<and>
               generate_stereo_from_depth_frame fill frame depth max_shift
                 = Inr (inpaint fill left_eye (hole_mask left_eye),
                        inpaint fill right_eye (hole_mask right_eye)) \<and>
               (\<forall>y < H. \<forall>c < W.
                  (hole_mask left_eye ! y ! c \<longleftrightarrow> left_eye ! y ! c = black) \<and>
                  (hole_mask right_eye ! y ! c \<longleftrightarrow> right_eye ! y ! c = black) \<and>
                  (\<forall>x. last_writer (left_col W (shift ! y)) [0 ..< W] c = Some x \<and>
                       frame ! y ! x = black \<longrightarrow>
                       hole_mask left_eye ! y ! c \<and>
                       inpaint fill left_eye (hole_mask left_eye) ! y ! c
                         = inpainted fill left_eye y c) \<and>
                  (last_writer (left_col W (shift ! y)) [0 ..< W] c = None \<longrightarrow>
                       hole_mask left_eye ! y ! c \<and>
                       inpaint fill left_eye (hole_mask left_eye) ! y ! c
                         = inpainted fill left_eye y c) \<and>
                  (left_eye ! y ! c \<noteq> black \<longrightarrow>
                       inpaint fill left_eye (hole_mask left_eye) ! y ! c = left_eye ! y ! c) \<and>
                  (\<forall>x. last_writer (right_col (shift ! y)) [0 ..< W] c = Some x \<and>
                       frame ! y ! x = black \<longrightarrow>
                       hole_mask right_eye ! y ! c \<and>
                       inpaint fill right_eye (hole_mask right_eye) ! y ! c
                         = inpainted fill right_eye y c) \<and>
                  (last_writer (right_col (shift ! y)) [0 ..< W] c = None \<longrightarrow>
                       hole_mask right_eye ! y ! c \<and>
                       inpaint fill right_eye (hole_mask right_eye) ! y ! c
                         = inpainted fill right_eye y c) \<and>
                  (right_eye ! y ! c \<noteq> black \<longrightarrow>
                       inpaint fill right_eye (hole_mask right_eye) ! y ! c = right_eye ! y ! c) \<and>
                  inpainted fill left_eye y c =
                    (if \<forall>y' < H. \<forall>c' < W. left_eye ! y' ! c' = black
                     then left_eye ! y ! c else fill left_eye (hole_mask left_eye) y c) \<and>
                  inpainted fill right_eye y c =
                    (if \<forall>y' < H. \<forall>c' < W. right_eye ! y' ! c' = black
                     then right_eye ! y ! c else fill right_eye (hole_mask right_eye) y c)))"
proof -
  let ?H = "height frame" and ?W = "width frame"
  let ?shift = "shift_field ?H ?W depth max_shift"
  let ?L = "left_eye_of ?W ?shift frame" and ?R = "right_eye_of ?W ?shift frame"
  have ok: "scatter_frame frame depth max_shift = Inr (?L, ?R)"
    by (rule scatter_frame_ok [OF assms(1,2,4)])
  then have gen: "generate_stereo_from_depth_frame fill frame depth max_shift
      = Inr (inpaint fill ?L (hole_mask ?L), inpaint fill ?R (hole_mask ?R))"
    by (simp add: generate_stereo_from_depth_frame_def)
  have allL: "(\<forall>y' < length ?L. \<forall>c' < length (?L ! y'). ?L ! y' ! c' = black)
      \<longleftrightarrow> (\<forall>y' < ?H. \<forall>c' < ?W. ?L ! y' ! c' = black)"
    by (simp add: eye_of_dims height_def)
  have allR: "(\<forall>y' < length ?R. \<forall>c' < length (?R ! y'). ?R ! y' ! c' = black)
      \<longleftrightarrow> (\<forall>y' < ?H. \<forall>c' < ?W. ?R ! y' ! c' = black)"
    by (simp add: eye_of_dims height_def)
  have cL: "inpainted fill ?L y c =
      (if \<forall>y' < ?H. \<forall>c' < ?W. ?L ! y' ! c' = black
       then ?L ! y ! c else fill ?L (hole_mask ?L) y c)" for y c
    unfolding inpainted_cases [of fill ?L y c] allL ..
  have cR: "inpainted fill ?R y c =
      (if \<forall>y' < ?H. \<forall>c' < ?W. ?R ! y' ! c' = black
       then ?R ! y ! c else fill ?R (hole_mask ?R) y c)" for y c
    unfolding inpainted_cases [of fill ?R y c] allR ..
  have px: "(hole_mask ?L ! y ! c \<longleftrightarrow> ?L ! y ! c = black) \<and>
       (hole_mask ?R ! y ! c \<longleftrightarrow> ?R ! y ! c = black) \<and>
       (\<forall>x. last_writer (left_col ?W (?shift ! y)) [0 ..< ?W] c = Some x \<and>
            frame ! y ! x = black \<longrightarrow>
            hole_mask ?L ! y ! c \<and>
            inpaint fill ?L (hole_mask ?L) ! y ! c = inpainted fill ?L y c) \<and>
       (last_writer (left_col ?W (?shift ! y)) [0 ..< ?W] c = None \<longrightarrow>
            hole_mask ?L ! y ! c \<and>
            inpaint fill ?L (hole_mask ?L) ! y ! c = inpainted fill ?L y c) \<and>
       (?L ! y ! c \<noteq> black \<longrightarrow> inpaint fill ?L (hole_mask ?L) ! y ! c = ?L ! y ! c) \<and>
       (\<forall>x. last_writer (right_col (?shift ! y)) [0 ..< ?W] c = Some x \<and>
            frame ! y ! x = black \<longrightarrow>
            hole_mask ?R ! y ! c \<and>
            inpaint fill ?R (hole_mask ?R) ! y ! c = inpainted fill ?R y c) \<and>
       (last_writer (right_col (?shift ! y)) [0 ..< ?W] c = None \<longrightarrow>
            hole_mask ?R ! y ! c \<and>
            inpaint fill ?R (hole_mask ?R) ! y ! c = inpainted fill ?R y c) \<and>
       (?R ! y ! c \<noteq> black \<longrightarrow> inpaint fill ?R (hole_mask ?R) ! y ! c = ?R ! y ! c)"
    if "y < ?H" "c < ?W" for y c
  proof -
    from that have y: "y < length frame" by (simp add: height_def)
    have yl: "y < length ?L" and cl: "c < length (?L ! y)"
      and yr: "y < length ?R" and cr: "c < length (?R ! y)"
      using y that(2) by (simp_all add: eye_of_dims)
    note il = inpainted_pixel [OF yl cl, of fill]
    note ir = inpainted_pixel [OF yr cr, of fill]
    note nl = left_eye_of_nth [OF y that(2), of ?shift]
    note nr = right_eye_of_nth [OF y that(2), of ?shift]
    have l1: "?L ! y ! c = black"
      if "last_writer (left_col ?W (?shift ! y)) [0 ..< ?W] c = Some x" "frame ! y ! x = black"
      for x using nl that by simp
    have l2: "?L ! y ! c = black"
      if "last_writer (left_col ?W (?shift ! y)) [0 ..< ?W] c = None"
      using nl that by simp
    have r1: "?R ! y ! c = black"
      if "last_writer (right_col (?shift ! y)) [0 ..< ?W] c = Some x" "frame ! y ! x = black"
      for x using nr that by simp
    have r2: "?R ! y ! c = black"
      if "last_writer (right_col (?shift ! y)) [0 ..< ?W] c = None"
      using nr that by simp
    from il ir l1 l2 r1 r2 show ?thesis by metis
  qed
  show ?thesis
    unfolding Let_def
    apply (rule exI [of _ ?L])
    apply (rule exI [of _ ?R])
    using ok gen px cL cR by blast
qed

text \<open>
  The theorem on the sample frame with \<open>max_shift = 1\<close>: the black pixel in the middle of
  the frame and the destinations that no pixel was written to all come out with the
  filler's value, in both eye images.
\<close>

theorem black_source_pixels_are_inpainted_witness:
  "(0::int) \<le> 1 \<and> (1::int) \<le> 2 ^ 30 \<and> width sample_frame \<le> 2 ^ 30 \<and>
   depth_covers sample_frame (Some sample_depth) \<and>
   (\<exists>left_eye right_eye.
      scatter_frame sample_frame (Some sample_depth) 1 = Inr (left_eye, right_eye) \<and>
      generate_stereo_from_depth_frame grey_fill sample_frame (Some sample_depth) 1
        = Inr (inpaint grey_fill left_eye (hole_mask left_eye),
               inpaint grey_fill right_eye (hole_mask right_eye))) \<and>
   generate_stereo_from_depth_frame grey_fill sample_frame (Some sample_depth) 1
     = Inr ([[(1, 1, 1), (128, 128, 128), (3, 3, 3)],
             [(4, 4, 4), (128, 128, 128), (6, 6, 6)],
             [(128, 128, 128), (8, 8, 8), (9, 9, 9)]],
            [[(2, 2, 2), (128, 128, 128), (3, 3, 3)],
             [(4, 4, 4), (128, 128, 128), (6, 6, 6)],
             [(7, 7, 7), (8, 8, 8), (9, 9, 9)]])"
proof -
  have m: "(0::int) \<le> 1" "(1::int) \<le> 2 ^ 30" by simp_all
  have w: "width sample_frame \<le> 2 ^ 30" by (simp add: sample_dims)
  have v: "generate_stereo_from_depth_frame grey_fill sample_frame (Some sample_depth) 1
     = Inr ([[(1, 1, 1), (128, 128, 128), (3, 3, 3)],
             [(4, 4, 4), (128, 128, 128), (6, 6, 6)],
             [(128, 128, 128), (8, 8, 8), (9, 9, 9)]],
            [[(2, 2, 2), (128, 128, 128), (3, 3, 3)],
             [(4, 4, 4), (128, 128, 128), (6, 6, 6)],
             [(7, 7, 7), (8, 8, 8), (9, 9, 9)]])"
    by (simp add: generate_stereo_from_depth_frame_def sample_scatter
          sample_inpaint_left sample_inpaint_right)
  from black_source_pixels_are_inpainted [OF m w sample_covers, of grey_fill]
  have "\<exists>left_eye right_eye.
      scatter_frame sample_frame (Some sample_depth) 1 = Inr (left_eye, right_eye) \<and>
      generate_stereo_from_depth_frame grey_fill sample_frame (Some sample_depth) 1
        = Inr (inpaint grey_fill left_eye (hole_mask left_eye),
               inpaint grey_fill right_eye (hole_mask right_eye))"
    unfolding Let_def by blast
  with m w sample_covers v show ?thesis by blast
qed

text \<open>
  Claim C10 as stated fails on a frame that is black everywhere: every pixel is marked,
  the inpainting has no known pixel to start from, and both eye images come out as the
  black frame, so the pure-black content is preserved as it is.
\<close>

theorem black_frame_preserved_counterexample:
  "generate_stereo_from_depth_frame grey_fill black_frame None 30
     = Inr (black_frame, black_frame)"
proof -
  have "rect black_frame" by (simp add: rect_def black_frame_def width_def numeral_3_eq_3)
  from stereo_without_depth [OF this, of grey_fill 30] show ?thesis
    by (simp add: black_inpaint)
qed

section \<open>Properties of the anaglyph compositor\<close>

lemma anaglyph_pixel_channels:
  "blue_of (anaglyph_pixel l r) = red_of l \<and>
   green_of (anaglyph_pixel l r) = green_of r \<and>
   red_of (anaglyph_pixel l r) = blue_of r"
  by (simp add: anaglyph_pixel_def blue_of_def green_of_def red_of_def ch0_def ch1_def ch2_def)

lemma create_anaglyph_channels:
  assumes "same_shape l r" "y < length l" "x < length (l ! y)"
  shows "\<exists>out. create_anaglyph_from_stereo (Some l) (Some r) ok = (ok, Some out) \<and>
           blue_of (out ! y ! x) = red_of (l ! y ! x) \<and>
           green_of (out ! y ! x) = green_of (r ! y ! x) \<and>
           red_of (out ! y ! x) = blue_of (r ! y ! x)"
proof -
  from assms(1) have len: "length l = length r"
    unfolding same_shape_def by (metis length_map)
  from assms(1,2) len have row: "length (l ! y) = length (r ! y)"
    unfolding same_shape_def by (metis nth_map)
  have "map2 (map2 anaglyph_pixel) l r ! y ! x = anaglyph_pixel (l ! y ! x) (r ! y ! x)"
    using assms(2,3) len row by simp
  then show ?thesis
    using assms(1) anaglyph_pixel_channels by (simp add: create_anaglyph_from_stereo_def)
qed

text \<open>
  Claim C4 on the code: a left image of one pure red pixel and a black right image.  The
  array written has that pixel's red value in channel 0, which is the blue channel of the
  image file; its red channel is the right image's blue channel, 0, not the left image's
  red channel, 255.
\<close>

theorem anaglyph_red_is_right_blue:
  "create_anaglyph_from_stereo (Some [[(0, 0, 255)]]) (Some [[(0, 0, 0)]]) True
     = (True, Some [[(255, 0, 0)]]) \<and>
   red_of (0, 0, 255) = 255 \<and> red_of (255, 0, 0) = 0 \<and> blue_of (255, 0, 0) = 255"
  by (simp add: create_anaglyph_from_stereo_def same_shape_def anaglyph_pixel_def
      red_of_def blue_of_def ch0_def ch1_def ch2_def)

section \<open>Properties of the projection mapper\<close>








text \<open>The tangent is zero exactly at the multiples of 360 degrees.\<close>

lemma multiple_of_360:
  "sin ((field_of_view * pi / 180) / 2) = 0 \<longleftrightarrow> (\<exists>k::int. field_of_view = 360 * of_int k)"
proof -
  have "(field_of_view * pi / 180) / 2 = of_int k * pi \<longleftrightarrow> field_of_view = 360 * of_int k"
    for k :: int
    by (simp add: field_simps)
  then show ?thesis unfolding sin_zero_iff_int2 by simp
qed

text \<open>
  With an infinite focal length no destination pixel is valid: this is the projection at
  a field of view of 0 degrees.
\<close>

lemma infinite_focal_invalid:
  "create_mapping_arrays W H PosInf w h y_out x_out = (0, 0, False)"
  by (simp add: create_mapping_arrays_def Let_def float_of_sign_def)

lemma zero_field_of_view_is_black:
  assumes "0 < w"
  shows "flat_to_vr180_spherical_optimized sample h w ow 0 y_out x_out = (black, False)"
proof -
  have "focal_of 0 (real w) = PosInf"
    using assms by (simp add: focal_of_def np_tan_def float_of_sign_def)
  then show ?thesis
    by (simp add: flat_to_vr180_spherical_optimized_def Let_def infinite_focal_invalid)
qed




end
